theory Spec2Isabelle
  imports Complex_Main
begin

section \<open>Numbers of the mesh converter\<close>

text \<open>
  The converter (scripts/blender\_mesh\_converter.py) computes on Python floats. A float is
  modelled as a real number or one of the three special values; rounding and overflow of
  finite values are not modelled (arithmetic on finite values is exact). The infinities are
  kept because the source itself creates them: every bounds loop starts from
  \<^verbatim>\<open>float('inf')\<close> and \<^verbatim>\<open>float('-inf')\<close>.

  This is an idealisation of the double precision numbers of Python, and it bounds what the
  statements below say about the program. A sum, difference, product or quotient of finite
  numbers is the exact real where Python rounds it to the nearest double, and it stays finite
  where Python would overflow to an infinity (for instance a width
  \<^verbatim>\<open>max_x - min_x\<close> of coordinates near the largest double); a decimal constant of
  the source such as 0.8 is the rational number 8/10. Comparisons, \<^verbatim>\<open>min\<close> and
  \<^verbatim>\<open>max\<close> are the same on reals and on doubles. A statement written with
  \<open>fadd\<close>, \<open>fsub\<close>, \<open>fmul\<close> and \<open>fdiv\<close> therefore describes the order
  and the operands of the operations of the code; a statement that evaluates them to a real
  number holds of the code up to rounding and aside from overflow.
\<close>

datatype pyfloat = Finite real | PosInf | NegInf | NaN

fun fneg :: "pyfloat \<Rightarrow> pyfloat" where
  "fneg (Finite a) = Finite (- a)"
| "fneg PosInf = NegInf"
| "fneg NegInf = PosInf"
| "fneg NaN = NaN"

fun fadd :: "pyfloat \<Rightarrow> pyfloat \<Rightarrow> pyfloat" where
  "fadd (Finite a) (Finite b) = Finite (a + b)"
| "fadd NaN y = NaN"
| "fadd x NaN = NaN"
| "fadd PosInf NegInf = NaN"
| "fadd NegInf PosInf = NaN"
| "fadd PosInf y = PosInf"
| "fadd NegInf y = NegInf"
| "fadd (Finite a) y = y"

definition fsub :: "pyfloat \<Rightarrow> pyfloat \<Rightarrow> pyfloat" where
  "fsub x y = fadd x (fneg y)"

text \<open>The sign of a float as an infinity of that sign sees it: 0 gives NaN.\<close>

fun inf_times :: "bool \<Rightarrow> pyfloat \<Rightarrow> pyfloat" where
  "inf_times pos NaN = NaN"
| "inf_times pos PosInf = (if pos then PosInf else NegInf)"
| "inf_times pos NegInf = (if pos then NegInf else PosInf)"
| "inf_times pos (Finite a) =
     (if a = 0 then NaN else if (0 < a) = pos then PosInf else NegInf)"

fun fmul :: "pyfloat \<Rightarrow> pyfloat \<Rightarrow> pyfloat" where
  "fmul (Finite a) (Finite b) = Finite (a * b)"
| "fmul NaN y = NaN"
| "fmul x NaN = NaN"
| "fmul PosInf y = inf_times True y"
| "fmul NegInf y = inf_times False y"
| "fmul x PosInf = inf_times True x"
| "fmul x NegInf = inf_times False x"

text \<open>
  Float division. Python raises ZeroDivisionError on a zero divisor; every float division
  of the source is guarded (\<^verbatim>\<open>if edge_x > 0\<close>, a non-empty list), so that case is
  never reached and is given NaN here.
\<close>

fun fdiv :: "pyfloat \<Rightarrow> pyfloat \<Rightarrow> pyfloat" where
  "fdiv (Finite a) (Finite b) = (if b = 0 then NaN else Finite (a / b))"
| "fdiv NaN y = NaN"
| "fdiv x NaN = NaN"
| "fdiv (Finite a) y = Finite 0"
| "fdiv x (Finite b) = (if b = 0 then NaN else inf_times (0 < b) x)"
| "fdiv x y = NaN"

fun flt :: "pyfloat \<Rightarrow> pyfloat \<Rightarrow> bool" where
  "flt (Finite a) (Finite b) = (a < b)"
| "flt NaN y = False"
| "flt x NaN = False"
| "flt x NegInf = False"
| "flt PosInf y = False"
| "flt x y = True"

fun fle :: "pyfloat \<Rightarrow> pyfloat \<Rightarrow> bool" where
  "fle (Finite a) (Finite b) = (a \<le> b)"
| "fle NaN y = False"
| "fle x NaN = False"
| "fle NegInf y = True"
| "fle x PosInf = True"
| "fle x y = False"

text \<open>
  Python's \<^verbatim>\<open>min(a, b)\<close> keeps the first argument unless the second is smaller,
  \<^verbatim>\<open>max(a, b)\<close> unless the second is greater; with more arguments, or a list, the
  same test runs from left to right.
\<close>

definition py_min2 :: "pyfloat \<Rightarrow> pyfloat \<Rightarrow> pyfloat" where
  "py_min2 a b = (if flt b a then b else a)"

definition py_max2 :: "pyfloat \<Rightarrow> pyfloat \<Rightarrow> pyfloat" where
  "py_max2 a b = (if flt a b then b else a)"

section \<open>Data model\<close>

text \<open>
  The JSON document \<^verbatim>\<open>{"triangles": {"v": [...], "f": [...]}}\<close>: a flat list of
  coordinates and a flat list of vertex indices.
\<close>

record mesh =
  vertices :: "pyfloat list"
  faces :: "int list"

text \<open>
  The exceptions the modelled code can raise. \<open>SystemExit\<close> is
  \<^verbatim>\<open>sys.exit(1)\<close> after the answer to a confirmation prompt was not \<^verbatim>\<open>y\<close>;
  \<open>EOFError\<close> is \<^verbatim>\<open>input()\<close> on an exhausted standard input.
\<close>

datatype py_error = IndexError | ZeroDivisionError | ValueError | SystemExit | EOFError

text \<open>\<^verbatim>\<open>xs[i]\<close> for an index produced by \<^verbatim>\<open>range\<close> (never negative).\<close>

definition py_at :: "'a list \<Rightarrow> nat \<Rightarrow> py_error + 'a" where
  "py_at xs i = (if i < length xs then Inr (xs ! i) else Inl IndexError)"

text \<open>\<^verbatim>\<open>xs[i]\<close> for any integer: a negative index counts from the end.\<close>

definition py_index :: "'a list \<Rightarrow> int \<Rightarrow> py_error + 'a" where
  "py_index xs i =
     (if 0 \<le> i then (if i < int (length xs) then Inr (xs ! nat i) else Inl IndexError)
      else if - int (length xs) \<le> i then Inr (xs ! nat (int (length xs) + i))
      else Inl IndexError)"

section \<open>Bounds\<close>

text \<open>
  The bounds loop of \<^verbatim>\<open>trim_edges\<close> (lines 288-294) and \<^verbatim>\<open>smooth_edges\<close>
  (lines 375-381):
  \<^verbatim>\<open>
  min_x, max_x = float('inf'), float('-inf')
  min_y, max_y = float('inf'), float('-inf')
  for i in range(0, len(vertices), 3):
      x, y = vertices[i], vertices[i + 1]
      min_x, max_x = min(min_x, x), max(max_x, x)
      min_y, max_y = min(min_y, y), max(max_y, y)
  \<close>
\<close>

record bounds =
  min_x :: pyfloat
  max_x :: pyfloat
  min_y :: pyfloat
  max_y :: pyfloat

definition init_bounds :: bounds where
  "init_bounds = \<lparr>min_x = PosInf, max_x = NegInf, min_y = PosInf, max_y = NegInf\<rparr>"

function bounds_loop :: "pyfloat list \<Rightarrow> nat \<Rightarrow> bounds \<Rightarrow> py_error + bounds" where
  "bounds_loop vs i b =
     (if i < length vs then
        (if i + 1 < length vs then
           bounds_loop vs (i + 3)
             \<lparr>min_x = py_min2 (min_x b) (vs ! i), max_x = py_max2 (max_x b) (vs ! i),
              min_y = py_min2 (min_y b) (vs ! (i + 1)),
              max_y = py_max2 (max_y b) (vs ! (i + 1))\<rparr>
         else Inl IndexError)
      else Inr b)"
  by pat_completeness auto
termination
  by (relation "measure (\<lambda>(vs, i, b). length vs - i)") auto

declare bounds_loop.simps [simp del]

definition find_bounds :: "pyfloat list \<Rightarrow> py_error + bounds" where
  "find_bounds vs = bounds_loop vs 0 init_bounds"

section \<open>trim\_edges\<close>

text \<open>
  Lines 308-313: one flag per vertex.
  \<^verbatim>\<open>
  for i in range(0, len(vertices), 3):
      x, y = vertices[i], vertices[i + 1]
      inside = new_min_x <= x <= new_max_x and new_min_y <= y <= new_max_y
      vertex_inside.append(inside)
  \<close>
\<close>

definition inside_box :: "bounds \<Rightarrow> pyfloat \<Rightarrow> pyfloat \<Rightarrow> bool" where
  "inside_box nb x y =
     (fle (min_x nb) x \<and> fle x (max_x nb) \<and> fle (min_y nb) y \<and> fle y (max_y nb))"

function mark_loop :: "bounds \<Rightarrow> pyfloat list \<Rightarrow> nat \<Rightarrow> bool list \<Rightarrow> py_error + bool list" where
  "mark_loop nb vs i vertex_inside =
     (if i < length vs then
        (if i + 1 < length vs then
           mark_loop nb vs (i + 3) (vertex_inside @ [inside_box nb (vs ! i) (vs ! (i + 1))])
         else Inl IndexError)
      else Inr vertex_inside)"
  by pat_completeness auto
termination
  by (relation "measure (\<lambda>(nb, vs, i, acc). length vs - i)") auto

declare mark_loop.simps [simp del]

text \<open>
  Lines 316-320: the face filter. The flags are read with the face's own indices, so a
  negative index reads from the end and one out of range raises.
  \<^verbatim>\<open>
  for i in range(0, len(faces), 3):
      v1, v2, v3 = faces[i], faces[i + 1], faces[i + 2]
      if vertex_inside[v1] and vertex_inside[v2] and vertex_inside[v3]:
          new_faces.extend([v1, v2, v3])
  \<close>
\<close>

definition keep_face :: "bool list \<Rightarrow> int \<Rightarrow> int \<Rightarrow> int \<Rightarrow> py_error + bool" where
  "keep_face vertex_inside v1 v2 v3 =
     (case py_index vertex_inside v1 of Inl e \<Rightarrow> Inl e
      | Inr b1 \<Rightarrow> if \<not> b1 then Inr False else
     (case py_index vertex_inside v2 of Inl e \<Rightarrow> Inl e
      | Inr b2 \<Rightarrow> if \<not> b2 then Inr False else
     (case py_index vertex_inside v3 of Inl e \<Rightarrow> Inl e
      | Inr b3 \<Rightarrow> Inr b3)))"

function filter_loop :: "bool list \<Rightarrow> int list \<Rightarrow> nat \<Rightarrow> int list \<Rightarrow> py_error + int list" where
  "filter_loop vertex_inside fs i new_faces =
     (if i < length fs then
        (if i + 2 < length fs then
           (case keep_face vertex_inside (fs ! i) (fs ! (i + 1)) (fs ! (i + 2)) of
              Inl e \<Rightarrow> Inl e
            | Inr k \<Rightarrow>
                filter_loop vertex_inside fs (i + 3)
                  (if k then new_faces @ [fs ! i, fs ! (i + 1), fs ! (i + 2)] else new_faces))
         else Inl IndexError)
      else Inr new_faces)"
  by pat_completeness auto
termination
  by (relation "measure (\<lambda>(ins, fs, i, acc). length fs - i)") auto

declare filter_loop.simps [simp del]

text \<open>
  Lines 297-303, the inset box.
\<close>

definition trim_bounds :: "bounds \<Rightarrow> pyfloat \<Rightarrow> bounds" where
  "trim_bounds b trim_percent =
     (let trim_x = fmul (fsub (max_x b) (min_x b)) trim_percent;
          trim_y = fmul (fsub (max_y b) (min_y b)) trim_percent
      in \<lparr>min_x = fadd (min_x b) trim_x, max_x = fsub (max_x b) trim_x,
          min_y = fadd (min_y b) trim_y, max_y = fsub (max_y b) trim_y\<rparr>)"

text \<open>
  \<^verbatim>\<open>trim_edges\<close> from the loaded document to the document it writes. Line 325 prints
  \<^verbatim>\<open>faces_removed / num_faces_original * 100\<close>, a division of two ints, before
  anything is written: with \<^verbatim>\<open>num_faces_original = len(faces) // 3 = 0\<close> it raises.
\<close>

definition trim_edges :: "mesh \<Rightarrow> pyfloat \<Rightarrow> py_error + mesh" where
  "trim_edges m trim_percent =
     (let num_faces_original = length (faces m) div 3 in
      case find_bounds (vertices m) of Inl e \<Rightarrow> Inl e
      | Inr b \<Rightarrow>
     (case mark_loop (trim_bounds b trim_percent) (vertices m) 0 [] of Inl e \<Rightarrow> Inl e
      | Inr vertex_inside \<Rightarrow>
     (case filter_loop vertex_inside (faces m) 0 [] of Inl e \<Rightarrow> Inl e
      | Inr new_faces \<Rightarrow>
          if num_faces_original = 0 then Inl ZeroDivisionError
          else Inr \<lparr>vertices = vertices m, faces = new_faces\<rparr>)))"

section \<open>smooth\_edges\<close>

text \<open>
  Lines 384-396: the edge zone and the elevations of the interior vertices.
  \<^verbatim>\<open>
  edge_x = (max_x - min_x) * edge_distance
  edge_y = (max_y - min_y) * edge_distance
  interior_elevations = []
  for i in range(0, len(vertices), 3):
      x, y, z = vertices[i], vertices[i + 1], vertices[i + 2]
      if (min_x + edge_x < x < max_x - edge_x and
          min_y + edge_y < y < max_y - edge_y and
          z > 0):
          interior_elevations.append(z)
  \<close>
\<close>

definition edge_width :: "pyfloat \<Rightarrow> pyfloat \<Rightarrow> pyfloat \<Rightarrow> pyfloat" where
  "edge_width lo hi edge_distance = fmul (fsub hi lo) edge_distance"

definition is_interior :: "bounds \<Rightarrow> pyfloat \<Rightarrow> pyfloat \<Rightarrow> pyfloat \<Rightarrow> pyfloat \<Rightarrow> pyfloat \<Rightarrow> bool" where
  "is_interior b edge_x edge_y x y z =
     (flt (fadd (min_x b) edge_x) x \<and> flt x (fsub (max_x b) edge_x) \<and>
      flt (fadd (min_y b) edge_y) y \<and> flt y (fsub (max_y b) edge_y) \<and>
      flt (Finite 0) z)"

function interior_loop ::
  "bounds \<Rightarrow> pyfloat \<Rightarrow> pyfloat \<Rightarrow> pyfloat list \<Rightarrow> nat \<Rightarrow> pyfloat list \<Rightarrow> py_error + pyfloat list" where
  "interior_loop b edge_x edge_y vs i interior_elevations =
     (if i < length vs then
        (if i + 2 < length vs then
           interior_loop b edge_x edge_y vs (i + 3)
             (if is_interior b edge_x edge_y (vs ! i) (vs ! (i + 1)) (vs ! (i + 2))
              then interior_elevations @ [vs ! (i + 2)] else interior_elevations)
         else Inl IndexError)
      else Inr interior_elevations)"
  by pat_completeness auto
termination
  by (relation "measure (\<lambda>(b, ex, ey, vs, i, acc). length vs - i)") auto

declare interior_loop.simps [simp del]

text \<open>
  \<^verbatim>\<open>sum(xs)\<close> adds from the left, starting at 0; \<^verbatim>\<open>min(xs)\<close> and
  \<^verbatim>\<open>max(xs)\<close> start from the first element (the list is not empty where the source
  calls them).
\<close>

definition py_sum :: "pyfloat list \<Rightarrow> pyfloat" where
  "py_sum xs = foldl fadd (Finite 0) xs"

definition py_min_list :: "pyfloat list \<Rightarrow> pyfloat" where
  "py_min_list xs = foldl py_min2 (hd xs) (tl xs)"

definition py_max_list :: "pyfloat list \<Rightarrow> pyfloat" where
  "py_max_list xs = foldl py_max2 (hd xs) (tl xs)"

text \<open>
  Lines 414-419: the normalised distance of a vertex from the nearest side.
  \<^verbatim>\<open>
  dist_from_left = (x - min_x) / edge_x if edge_x > 0 else 1
  dist_from_right = (max_x - x) / edge_x if edge_x > 0 else 1
  dist_from_bottom = (y - min_y) / edge_y if edge_y > 0 else 1
  dist_from_top = (max_y - y) / edge_y if edge_y > 0 else 1
  min_dist = min(dist_from_left, dist_from_right, dist_from_bottom, dist_from_top)
  \<close>
\<close>

definition min_dist :: "bounds \<Rightarrow> pyfloat \<Rightarrow> pyfloat \<Rightarrow> pyfloat \<Rightarrow> pyfloat \<Rightarrow> pyfloat" where
  "min_dist b edge_x edge_y x y =
     (let dist_from_left = (if flt (Finite 0) edge_x then fdiv (fsub x (min_x b)) edge_x else Finite 1);
          dist_from_right = (if flt (Finite 0) edge_x then fdiv (fsub (max_x b) x) edge_x else Finite 1);
          dist_from_bottom = (if flt (Finite 0) edge_y then fdiv (fsub y (min_y b)) edge_y else Finite 1);
          dist_from_top = (if flt (Finite 0) edge_y then fdiv (fsub (max_y b) y) edge_y else Finite 1)
      in py_min2 (py_min2 (py_min2 dist_from_left dist_from_right) dist_from_bottom) dist_from_top)"

text \<open>
  Lines 421-434: the new elevation of a vertex of the edge zone.
  \<^verbatim>\<open>
  if z <= 0 or z < min_interior * 0.8 or z > max_interior * 1.2:
      vertices[i + 2] = avg_elevation
  else:
      target = avg_elevation
      vertices[i + 2] = z + (target - z) * smooth_strength * (1 - blend)
  \<close>
\<close>

record interior_stats =
  avg_elevation :: pyfloat
  min_interior :: pyfloat
  max_interior :: pyfloat

definition edge_elevation :: "interior_stats \<Rightarrow> pyfloat \<Rightarrow> pyfloat \<Rightarrow> pyfloat \<Rightarrow> pyfloat" where
  "edge_elevation st smooth_strength blend z =
     (if fle z (Finite 0) \<or> flt z (fmul (min_interior st) (Finite (8 / 10)))
         \<or> flt (fmul (max_interior st) (Finite (12 / 10))) z
      then avg_elevation st
      else fadd z (fmul (fmul (fsub (avg_elevation st) z) smooth_strength)
                     (fsub (Finite 1) blend)))"

text \<open>
  Lines 410-434: the loop writes into the list it reads from; the model threads the list.
\<close>

function smooth_loop ::
  "bounds \<Rightarrow> pyfloat \<Rightarrow> pyfloat \<Rightarrow> interior_stats \<Rightarrow> pyfloat \<Rightarrow> pyfloat list \<Rightarrow> nat
     \<Rightarrow> py_error + pyfloat list" where
  "smooth_loop b edge_x edge_y st smooth_strength vs i =
     (if i < length vs then
        (if i + 2 < length vs then
           (let x = vs ! i; y = vs ! (i + 1); z = vs ! (i + 2);
                md = min_dist b edge_x edge_y x y
            in smooth_loop b edge_x edge_y st smooth_strength
                 (if flt md (Finite 1)
                  then vs[i + 2 := edge_elevation st smooth_strength md z] else vs)
                 (i + 3))
         else Inl IndexError)
      else Inr vs)"
  by pat_completeness auto
termination
  by (relation "measure (\<lambda>(b, ex, ey, st, s, vs, i). length vs - i)") auto

declare smooth_loop.simps [simp del]

text \<open>
  \<^verbatim>\<open>smooth_edges\<close> from the loaded document to what it does with it: it writes the
  smoothed document to the output path and returns that path, or (lines 398-400) prints
  "No interior vertices found!" and returns the input path, nothing written.
\<close>

datatype smooth_result = Written mesh | Returned_input_path

definition interior_stats_of :: "pyfloat list \<Rightarrow> interior_stats" where
  "interior_stats_of interior_elevations =
     \<lparr>avg_elevation =
        fdiv (py_sum interior_elevations) (Finite (real (length interior_elevations))),
      min_interior = py_min_list interior_elevations,
      max_interior = py_max_list interior_elevations\<rparr>"

definition smooth_edges :: "mesh \<Rightarrow> pyfloat \<Rightarrow> pyfloat \<Rightarrow> py_error + smooth_result" where
  "smooth_edges m edge_distance smooth_strength =
     (case find_bounds (vertices m) of Inl e \<Rightarrow> Inl e
      | Inr b \<Rightarrow>
     (let edge_x = edge_width (min_x b) (max_x b) edge_distance;
          edge_y = edge_width (min_y b) (max_y b) edge_distance
      in case interior_loop b edge_x edge_y (vertices m) 0 [] of Inl e \<Rightarrow> Inl e
      | Inr interior_elevations \<Rightarrow>
          if interior_elevations = [] then Inr Returned_input_path
          else
            (let st = interior_stats_of interior_elevations
             in case smooth_loop b edge_x edge_y st smooth_strength (vertices m) 0 of
                  Inl e \<Rightarrow> Inl e
                | Inr vs' \<Rightarrow> Inr (Written \<lparr>vertices = vs', faces = faces m\<rparr>))))"
section \<open>Text\<close>

text \<open>
  A string is a list of characters, and a character is a code point below 256; text with
  code points from 256 on cannot be written in this model. \<^verbatim>\<open>str.isspace\<close> on
  these code points: tab, line feed, vertical tab, form feed, carriage return, the four
  separators 28-31, the space, next line (U+0085) and the no-break space (U+00A0).
\<close>

definition py_isspace :: "char \<Rightarrow> bool" where
  "py_isspace c = ((9 \<le> (of_char c :: nat) \<and> (of_char c :: nat) \<le> 13)
                   \<or> (28 \<le> (of_char c :: nat) \<and> (of_char c :: nat) \<le> 32)
                   \<or> (of_char c :: nat) = 133 \<or> (of_char c :: nat) = 160)"

definition py_strip :: "string \<Rightarrow> string" where
  "py_strip s = rev (dropWhile py_isspace (rev (dropWhile py_isspace s)))"

text \<open>\<^verbatim>\<open>s.split()\<close>: the maximal runs of non-space characters.\<close>

fun split_ws :: "string \<Rightarrow> string \<Rightarrow> string list" where
  "split_ws word [] = (if word = [] then [] else [word])"
| "split_ws word (c # cs) =
     (if py_isspace c then (if word = [] then split_ws [] cs else word # split_ws [] cs)
      else split_ws (word @ [c]) cs)"

definition py_split :: "string \<Rightarrow> string list" where
  "py_split s = split_ws [] s"

definition py_startswith :: "string \<Rightarrow> string \<Rightarrow> bool" where
  "py_startswith s p = (take (length p) s = p)"

text \<open>\<^verbatim>\<open>s.split('/')[0]\<close>: what stands before the first slash.\<close>

definition before_slash :: "string \<Rightarrow> string" where
  "before_slash s = takeWhile (\<lambda>c. c \<noteq> CHR ''/'') s"

definition py_lower :: "string \<Rightarrow> string" where
  "py_lower s =
     map (\<lambda>c. if 65 \<le> (of_char c :: nat) \<and> (of_char c :: nat) \<le> 90
              then char_of ((of_char c :: nat) + 32) else c) s"

text \<open>
  Iterating over a file opened in text mode: the lines, each with its terminator, where a
  carriage return, a line feed or the pair of them ends a line and is read as a line feed.
\<close>

definition LF :: char where "LF = CHR 0x0A"
definition CR :: char where "CR = CHR 0x0D"

fun readlines :: "string \<Rightarrow> string \<Rightarrow> string list" where
  "readlines line [] = (if line = [] then [] else [line])"
| "readlines line [c] = (if c = CR \<or> c = LF then [line @ [LF]] else [line @ [c]])"
| "readlines line (c # d # cs) =
     (if c = CR then (line @ [LF]) # (if d = LF then readlines [] cs else readlines [] (d # cs))
      else if c = LF then (line @ [LF]) # readlines [] (d # cs)
      else readlines (line @ [c]) (d # cs))"

definition file_lines :: "string \<Rightarrow> string list" where
  "file_lines text = readlines [] text"

section \<open>obj\_to\_json\<close>

text \<open>
  Lines 164-179, the OBJ parser. Python's \<^verbatim>\<open>float()\<close> and \<^verbatim>\<open>int()\<close> are
  parameters \<open>to_float\<close> and \<open>to_int\<close> of the model; \<open>None\<close> is their ValueError.
  \<^verbatim>\<open>
  for line in f:
      line = line.strip()
      if line.startswith('v '):
          parts = line.split()
          if len(parts) >= 4:
              x, y, z = float(parts[1]), float(parts[2]), float(parts[3])
              vertices.extend([x, y, z])
      elif line.startswith('f '):
          parts = line.split()
          if len(parts) >= 4:
              v1 = int(parts[1].split('/')[0]) - 1
              v2 = int(parts[2].split('/')[0]) - 1
              v3 = int(parts[3].split('/')[0]) - 1
              faces_from_obj.extend([v1, v2, v3])
  \<close>
\<close>

definition three :: "('a \<Rightarrow> 'b option) \<Rightarrow> 'a list \<Rightarrow> py_error + 'b list" where
  "three conv parts =
     (case conv (parts ! 1) of None \<Rightarrow> Inl ValueError
      | Some a \<Rightarrow>
     (case conv (parts ! 2) of None \<Rightarrow> Inl ValueError
      | Some b \<Rightarrow>
     (case conv (parts ! 3) of None \<Rightarrow> Inl ValueError
      | Some c \<Rightarrow> Inr [a, b, c])))"

fun parse_lines ::
  "(string \<Rightarrow> pyfloat option) \<Rightarrow> (string \<Rightarrow> int option) \<Rightarrow> string list
     \<Rightarrow> pyfloat list \<Rightarrow> int list \<Rightarrow> py_error + (pyfloat list \<times> int list)" where
  "parse_lines to_float to_int [] vs faces_from_obj = Inr (vs, faces_from_obj)"
| "parse_lines to_float to_int (l # ls) vs faces_from_obj =
     (let line = py_strip l in
      if py_startswith line ''v '' then
        (let parts = py_split line in
         if 4 \<le> length parts then
           (case three to_float parts of Inl e \<Rightarrow> Inl e
            | Inr xyz \<Rightarrow> parse_lines to_float to_int ls (vs @ xyz) faces_from_obj)
         else parse_lines to_float to_int ls vs faces_from_obj)
      else if py_startswith line ''f '' then
        (let parts = py_split line in
         if 4 \<le> length parts then
           (case three (\<lambda>p. map_option (\<lambda>n. n - 1) (to_int (before_slash p))) parts of
              Inl e \<Rightarrow> Inl e
            | Inr v123 \<Rightarrow> parse_lines to_float to_int ls vs (faces_from_obj @ v123))
         else parse_lines to_float to_int ls vs faces_from_obj)
      else parse_lines to_float to_int ls vs faces_from_obj)"

definition parse_obj ::
  "(string \<Rightarrow> pyfloat option) \<Rightarrow> (string \<Rightarrow> int option) \<Rightarrow> string
     \<Rightarrow> py_error + (pyfloat list \<times> int list)" where
  "parse_obj to_float to_int obj_text = parse_lines to_float to_int (file_lines obj_text) [] []"

text \<open>
  The confirmation prompt of lines 195-198 and 222-225; standard input is the list of the
  lines still to be read.
  \<^verbatim>\<open>
  response = input("    Continue anyway? (y/N): ")
  if response.lower() != 'y':
      print("Aborted.")
      sys.exit(1)
  \<close>
\<close>

definition confirm :: "string list \<Rightarrow> py_error + string list" where
  "confirm stdin =
     (case stdin of [] \<Rightarrow> Inl EOFError
      | response # rest \<Rightarrow> if py_lower response \<noteq> ''y'' then Inl SystemExit else Inr rest)"

text \<open>
  Lines 184-204, which face list is written.
  \<^verbatim>\<open>
  if new_vertex_count != original_vertex_count:
      if len(faces_from_obj) != len(original_faces):
          response = input("    Continue anyway? (y/N): ") ...
      faces = faces_from_obj
  else:
      faces = original_faces
  \<close>
\<close>

definition resolve_faces ::
  "pyfloat list \<Rightarrow> int list \<Rightarrow> mesh \<Rightarrow> string list \<Rightarrow> py_error + (int list \<times> string list)" where
  "resolve_faces vs faces_from_obj original stdin =
     (let original_vertex_count = length (vertices original) div 3;
          new_vertex_count = length vs div 3
      in if new_vertex_count \<noteq> original_vertex_count then
           (if length faces_from_obj \<noteq> length (faces original) then
              (case confirm stdin of Inl e \<Rightarrow> Inl e
               | Inr rest \<Rightarrow> Inr (faces_from_obj, rest))
            else Inr (faces_from_obj, stdin))
         else Inr (faces original, stdin))"

text \<open>
  Lines 207-216, the largest change of a coordinate.
  \<^verbatim>\<open>
  for i in range(0, min(len(vertices), len(original_vertices)), 3):
      x_diff = abs(vertices[i] - original_vertices[i])
      y_diff = abs(vertices[i + 1] - original_vertices[i + 1])
      z_diff = abs(vertices[i + 2] - original_vertices[i + 2])
      max_xy_diff = max(max_xy_diff, x_diff, y_diff)
      max_z_diff = max(max_z_diff, z_diff)
  \<close>
\<close>

fun fabs :: "pyfloat \<Rightarrow> pyfloat" where
  "fabs (Finite a) = Finite \<bar>a\<bar>"
| "fabs PosInf = PosInf"
| "fabs NegInf = PosInf"
| "fabs NaN = NaN"

function drift_loop ::
  "pyfloat list \<Rightarrow> pyfloat list \<Rightarrow> nat \<Rightarrow> pyfloat \<Rightarrow> pyfloat \<Rightarrow> py_error + (pyfloat \<times> pyfloat)" where
  "drift_loop vs ovs i max_xy_diff max_z_diff =
     (if i < min (length vs) (length ovs) then
        (if i + 2 < length vs \<and> i + 2 < length ovs then
           (let x_diff = fabs (fsub (vs ! i) (ovs ! i));
                y_diff = fabs (fsub (vs ! (i + 1)) (ovs ! (i + 1)));
                z_diff = fabs (fsub (vs ! (i + 2)) (ovs ! (i + 2)))
            in drift_loop vs ovs (i + 3) (py_max2 (py_max2 max_xy_diff x_diff) y_diff)
                 (py_max2 max_z_diff z_diff))
         else Inl IndexError)
      else Inr (max_xy_diff, max_z_diff))"
  by pat_completeness auto
termination
  by (relation "measure (\<lambda>(vs, ovs, i, a, b). min (length vs) (length ovs) - i)") auto

declare drift_loop.simps [simp del]

text \<open>
  Lines 218-225: above a drift of 0.001 in X or Y the user is asked.
\<close>

definition validate_positions :: "pyfloat list \<Rightarrow> pyfloat list \<Rightarrow> string list \<Rightarrow> py_error + string list" where
  "validate_positions vs ovs stdin =
     (case drift_loop vs ovs 0 (Finite 0) (Finite 0) of Inl e \<Rightarrow> Inl e
      | Inr (max_xy_diff, max_z_diff) \<Rightarrow>
          if flt (Finite (1 / 1000)) max_xy_diff then confirm stdin else Inr stdin)"

text \<open>
  \<^verbatim>\<open>obj_to_json\<close> from the text of the OBJ file, the loaded original document and
  standard input to the document it writes.
\<close>

definition obj_to_json ::
  "(string \<Rightarrow> pyfloat option) \<Rightarrow> (string \<Rightarrow> int option) \<Rightarrow> string \<Rightarrow> mesh \<Rightarrow> string list
     \<Rightarrow> py_error + mesh" where
  "obj_to_json to_float to_int obj_text original stdin =
     (case parse_obj to_float to_int obj_text of Inl e \<Rightarrow> Inl e
      | Inr (vs, faces_from_obj) \<Rightarrow>
     (case resolve_faces vs faces_from_obj original stdin of Inl e \<Rightarrow> Inl e
      | Inr (fcs, stdin1) \<Rightarrow>
     (case validate_positions vs (vertices original) stdin1 of Inl e \<Rightarrow> Inl e
      | Inr stdin2 \<Rightarrow> Inr \<lparr>vertices = vs, faces = fcs\<rparr>)))"

section \<open>json\_to\_obj\<close>

text \<open>
  \<^verbatim>\<open>f"{n}"\<close> for an int: its decimal digits, after a minus sign when negative.
\<close>

definition digit_char :: "nat \<Rightarrow> char" where
  "digit_char d = char_of (48 + d)"

function str_nat :: "nat \<Rightarrow> string" where
  "str_nat n = (if n < 10 then [digit_char n] else str_nat (n div 10) @ [digit_char (n mod 10)])"
  by pat_completeness auto
termination
  by (relation "measure id") auto

declare str_nat.simps [simp del]

definition py_str_int :: "int \<Rightarrow> string" where
  "py_str_int i = (if i < 0 then CHR ''-'' # str_nat (nat (- i)) else str_nat (nat i))"

text \<open>
  Lines 69-77: the extent of the mesh, which is only printed; the loop reads whole triples.
  \<^verbatim>\<open>
  for i in range(0, len(vertices), 3):
      x, y, z = vertices[i], vertices[i + 1], vertices[i + 2]
      min_x, max_x = min(min_x, x), max(max_x, x)
      min_y, max_y = min(min_y, y), max(max_y, y)
      min_z, max_z = min(min_z, z), max(max_z, z)
  \<close>
\<close>

function extent_loop ::
  "pyfloat list \<Rightarrow> nat \<Rightarrow> bounds \<Rightarrow> pyfloat \<times> pyfloat \<Rightarrow> py_error + (bounds \<times> pyfloat \<times> pyfloat)" where
  "extent_loop vs i b zr =
     (if i < length vs then
        (if i + 2 < length vs then
           extent_loop vs (i + 3)
             \<lparr>min_x = py_min2 (min_x b) (vs ! i), max_x = py_max2 (max_x b) (vs ! i),
              min_y = py_min2 (min_y b) (vs ! (i + 1)),
              max_y = py_max2 (max_y b) (vs ! (i + 1))\<rparr>
             (py_min2 (fst zr) (vs ! (i + 2)), py_max2 (snd zr) (vs ! (i + 2)))
         else Inl IndexError)
      else Inr (b, zr))"
  by pat_completeness auto
termination
  by (relation "measure (\<lambda>(vs, i, b, zr). length vs - i)") auto

declare extent_loop.simps [simp del]

text \<open>
  Lines 88-94, the header; \<open>name\<close> is the name of the JSON file.
\<close>

definition obj_header :: "string \<Rightarrow> nat \<Rightarrow> nat \<Rightarrow> string" where
  "obj_header name num_vertices num_faces =
     ''# Exported from qgis2threejs JSON by blender_mesh_converter.py'' @ [LF] @
     ''# Original file: '' @ name @ [LF] @
     ''# Vertices: '' @ py_str_int (int num_vertices) @ '', Faces: '' @
        py_str_int (int num_faces) @ [LF] @
     ''#'' @ [LF] @
     ''# IMPORTANT: Only edit Z values (elevation) in Blender!'' @ [LF] @
     ''# Do not move, rotate, or scale the mesh.'' @ [LF] @
     ''#'' @ [LF, LF]"

text \<open>
  Lines 97-106. \<^verbatim>\<open>f"{x}"\<close> for a coordinate is the parameter \<open>fmt\<close> of the model.
  \<^verbatim>\<open>
  for i in range(0, len(vertices), 3):
      x, y, z = vertices[i], vertices[i + 1], vertices[i + 2]
      f.write(f"v {x} {y} {z}\n")
  f.write("\n")
  for i in range(0, len(faces), 3):
      v1, v2, v3 = faces[i] + 1, faces[i + 1] + 1, faces[i + 2] + 1
      f.write(f"f {v1} {v2} {v3}\n")
  \<close>
\<close>

function vertex_lines :: "(pyfloat \<Rightarrow> string) \<Rightarrow> pyfloat list \<Rightarrow> nat \<Rightarrow> string \<Rightarrow> py_error + string" where
  "vertex_lines fmt vs i out =
     (if i < length vs then
        (if i + 2 < length vs then
           vertex_lines fmt vs (i + 3)
             (out @ ''v '' @ fmt (vs ! i) @ '' '' @ fmt (vs ! (i + 1)) @ '' ''
                @ fmt (vs ! (i + 2)) @ [LF])
         else Inl IndexError)
      else Inr out)"
  by pat_completeness auto
termination
  by (relation "measure (\<lambda>(fmt, vs, i, out). length vs - i)") auto

declare vertex_lines.simps [simp del]

function face_lines :: "int list \<Rightarrow> nat \<Rightarrow> string \<Rightarrow> py_error + string" where
  "face_lines fs i out =
     (if i < length fs then
        (if i + 2 < length fs then
           face_lines fs (i + 3)
             (out @ ''f '' @ py_str_int (fs ! i + 1) @ '' '' @ py_str_int (fs ! (i + 1) + 1)
                @ '' '' @ py_str_int (fs ! (i + 2) + 1) @ [LF])
         else Inl IndexError)
      else Inr out)"
  by pat_completeness auto
termination
  by (relation "measure (\<lambda>(fs, i, out). length fs - i)") auto

declare face_lines.simps [simp del]

text \<open>
  \<^verbatim>\<open>json_to_obj\<close> from the loaded document to the text of the OBJ file. A document
  without vertices is refused (lines 60-61).
\<close>

definition json_to_obj :: "(pyfloat \<Rightarrow> string) \<Rightarrow> string \<Rightarrow> mesh \<Rightarrow> py_error + string" where
  "json_to_obj fmt name m =
     (if vertices m = [] then Inl ValueError
      else
        (let num_vertices = length (vertices m) div 3; num_faces = length (faces m) div 3
         in case extent_loop (vertices m) 0 init_bounds (PosInf, NegInf) of Inl e \<Rightarrow> Inl e
            | Inr extent \<Rightarrow>
           (case vertex_lines fmt (vertices m) 0 (obj_header name num_vertices num_faces) of
              Inl e \<Rightarrow> Inl e
            | Inr out \<Rightarrow> face_lines (faces m) 0 (out @ [LF]))))"

section \<open>Vocabulary of the properties\<close>

text \<open>
  Vertex \<open>k\<close> of a flat coordinate list is the triple at positions \<open>3k\<close>,
  \<open>3k + 1\<close>, \<open>3k + 2\<close>.
\<close>

definition vx :: "pyfloat list \<Rightarrow> nat \<Rightarrow> pyfloat" where "vx vs k = vs ! (3 * k)"

definition vy :: "pyfloat list \<Rightarrow> nat \<Rightarrow> pyfloat" where "vy vs k = vs ! (3 * k + 1)"

definition vz :: "pyfloat list \<Rightarrow> nat \<Rightarrow> pyfloat" where "vz vs k = vs ! (3 * k + 2)"

text \<open>
  The interior vertices of \<^verbatim>\<open>smooth_edges\<close>, by index: strictly inside the box
  inset by the edge margins, with an elevation above 0; their elevations, in order; the
  normalised distance of a vertex from the nearest side.
\<close>

definition interior_vertices :: "bounds \<Rightarrow> pyfloat \<Rightarrow> pyfloat list \<Rightarrow> nat list" where
  "interior_vertices b edge_distance vs =
     filter (\<lambda>k. is_interior b (edge_width (min_x b) (max_x b) edge_distance)
                    (edge_width (min_y b) (max_y b) edge_distance) (vx vs k) (vy vs k) (vz vs k))
       [0..<length vs div 3]"

definition interior_elevations :: "bounds \<Rightarrow> pyfloat \<Rightarrow> pyfloat list \<Rightarrow> pyfloat list" where
  "interior_elevations b edge_distance vs = map (vz vs) (interior_vertices b edge_distance vs)"

definition vertex_min_dist :: "bounds \<Rightarrow> pyfloat \<Rightarrow> pyfloat list \<Rightarrow> nat \<Rightarrow> pyfloat" where
  "vertex_min_dist b edge_distance vs k =
     min_dist b (edge_width (min_x b) (max_x b) edge_distance)
       (edge_width (min_y b) (max_y b) edge_distance) (vx vs k) (vy vs k)"

text \<open>
  One iteration of the smoothing loop on the list, and the value position \<open>j\<close> holds
  after the loop has run from position \<open>i\<close>.
\<close>

definition smooth_step :: "bounds \<Rightarrow> pyfloat \<Rightarrow> pyfloat \<Rightarrow> interior_stats \<Rightarrow> pyfloat \<Rightarrow> pyfloat list \<Rightarrow> nat \<Rightarrow> pyfloat list" where
  "smooth_step b ex ey st s vs i =
     (if flt (min_dist b ex ey (vs ! i) (vs ! (i + 1))) (Finite 1)
      then vs[i + 2 := edge_elevation st s (min_dist b ex ey (vs ! i) (vs ! (i + 1))) (vs ! (i + 2))]
      else vs)"

definition smoothed_at :: "bounds \<Rightarrow> pyfloat \<Rightarrow> pyfloat \<Rightarrow> interior_stats \<Rightarrow> pyfloat \<Rightarrow> pyfloat list \<Rightarrow> nat \<Rightarrow> nat \<Rightarrow> pyfloat" where
  "smoothed_at b ex ey st s vs i j =
     (if i \<le> j \<and> (j - i) mod 3 = 2 \<and> flt (min_dist b ex ey (vs ! (j - 2)) (vs ! (j - 1))) (Finite 1)
      then edge_elevation st s (min_dist b ex ey (vs ! (j - 2)) (vs ! (j - 1))) (vs ! j)
      else vs ! j)"

section \<open>Example documents\<close>

text \<open>The unit square of two triangles, and the same vertices with no face.\<close>

definition unit_square :: mesh where
  "unit_square =
     \<lparr>vertices = map Finite [0, 0, 1,  1, 0, 1,  0, 1, 1,  1, 1, 1], faces = [0, 1, 2, 1, 3, 2]\<rparr>"

definition unit_bounds :: bounds where
  "unit_bounds = \<lparr>min_x = Finite 0, max_x = Finite 1, min_y = Finite 0, max_y = Finite 1\<rparr>"

definition no_faces :: mesh where
  "no_faces = \<lparr>vertices = map Finite [0, 0, 1,  1, 0, 1,  0, 1, 1], faces = []\<rparr>"

definition empty_mesh :: mesh where
  "empty_mesh = \<lparr>vertices = [], faces = []\<rparr>"

text \<open>
  A 10 by 10 terrain of eleven vertices: two interior ones (elevations 20 and 16), eight on
  the border and one half way into the edge zone of width 2.
\<close>

definition terrain :: mesh where
  "terrain =
     \<lparr>vertices = map Finite
        [0, 0, 10,  5, 0, 10,  10, 0, -1,  0, 5, 10,  5, 5, 20,  10, 5, 10,
         0, 10, 10,  5, 10, 100,  10, 10, 10,  1, 5, 14,  4, 4, 16],
      faces = [0, 1, 3, 1, 4, 3]\<rparr>"

definition terrain_bounds :: bounds where
  "terrain_bounds = \<lparr>min_x = Finite 0, max_x = Finite 10, min_y = Finite 0, max_y = Finite 10\<rparr>"

definition terrain_smoothed :: mesh where
  "terrain_smoothed =
     \<lparr>vertices = map Finite
        [0, 0, 18,  5, 0, 18,  10, 0, 18,  0, 5, 18,  5, 5, 20,  10, 5, 18,
         0, 10, 18,  5, 10, 18,  10, 10, 18,  1, 5, 15,  4, 4, 16],
      faces = [0, 1, 3, 1, 4, 3]\<rparr>"

text \<open>
  A valid mesh: whole vertex triples, whole face triples, every face index a vertex.
\<close>

definition valid_mesh :: "mesh \<Rightarrow> bool" where
  "valid_mesh m =
     (length (vertices m) mod 3 = 0 \<and> length (faces m) mod 3 = 0 \<and>
      (\<forall>f \<in> set (faces m). 0 \<le> f \<and> f < int (length (vertices m) div 3)))"

text \<open>
  The faces \<^verbatim>\<open>trim_edges\<close> is to keep: face \<open>k\<close> is kept when its three vertices lie
  in the inset box, and the kept faces follow one another in their original order.
\<close>

definition vertex_in :: "bounds \<Rightarrow> pyfloat list \<Rightarrow> int \<Rightarrow> bool" where
  "vertex_in nb vs v = inside_box nb (vx vs (nat v)) (vy vs (nat v))"

definition face_kept :: "bounds \<Rightarrow> pyfloat list \<Rightarrow> int list \<Rightarrow> nat \<Rightarrow> bool" where
  "face_kept nb vs fs k =
     (vertex_in nb vs (fs ! (3 * k)) \<and> vertex_in nb vs (fs ! (3 * k + 1)) \<and>
      vertex_in nb vs (fs ! (3 * k + 2)))"

definition face_at :: "int list \<Rightarrow> nat \<Rightarrow> int list" where
  "face_at fs k = [fs ! (3 * k), fs ! (3 * k + 1), fs ! (3 * k + 2)]"

definition kept_faces :: "bounds \<Rightarrow> pyfloat list \<Rightarrow> int list \<Rightarrow> int list" where
  "kept_faces nb vs fs =
     concat (map (face_at fs) (filter (face_kept nb vs fs) [0..<length fs div 3]))"

text \<open>One iteration of the bounds loop.\<close>

definition bounds_step :: "bounds \<Rightarrow> pyfloat \<times> pyfloat \<Rightarrow> bounds" where
  "bounds_step b p =
     \<lparr>min_x = py_min2 (min_x b) (fst p), max_x = py_max2 (max_x b) (fst p),
      min_y = py_min2 (min_y b) (snd p), max_y = py_max2 (max_y b) (snd p)\<rparr>"


section \<open>The edge zone in the words of the specification\<close>

text \<open>
  The notions the description of the smoothing is written in, defined on the coordinates of a
  mesh of finite numbers \<open>rs\<close> (three per vertex) without reference to the loops of
  \<^verbatim>\<open>smooth_edges\<close>: the bounding box is the least and greatest x and y of the vertices,
  an edge margin is the extent of the box times the edge fraction, a vertex is interior when it
  lies strictly inside the box inset by the margins and its elevation is above 0. Sums, products
  and quotients are the float operations of the first section; least and greatest are those of
  the order of the reals.
\<close>

definition xs_of :: "real list \<Rightarrow> real list" where
  "xs_of rs = map (\<lambda>k. rs ! (3 * k)) [0..<length rs div 3]"

definition ys_of :: "real list \<Rightarrow> real list" where
  "ys_of rs = map (\<lambda>k. rs ! (3 * k + 1)) [0..<length rs div 3]"

definition box_of :: "real list \<Rightarrow> bounds" where
  "box_of rs =
     \<lparr>min_x = Finite (Min (set (xs_of rs))), max_x = Finite (Max (set (xs_of rs))),
      min_y = Finite (Min (set (ys_of rs))), max_y = Finite (Max (set (ys_of rs)))\<rparr>"

definition edge_x_of :: "real list \<Rightarrow> pyfloat \<Rightarrow> pyfloat" where
  "edge_x_of rs d = fmul (fsub (max_x (box_of rs)) (min_x (box_of rs))) d"

definition edge_y_of :: "real list \<Rightarrow> pyfloat \<Rightarrow> pyfloat" where
  "edge_y_of rs d = fmul (fsub (max_y (box_of rs)) (min_y (box_of rs))) d"

definition interior_at :: "real list \<Rightarrow> pyfloat \<Rightarrow> nat \<Rightarrow> bool" where
  "interior_at rs d k =
     (flt (fadd (min_x (box_of rs)) (edge_x_of rs d)) (Finite (rs ! (3 * k))) \<and>
      flt (Finite (rs ! (3 * k))) (fsub (max_x (box_of rs)) (edge_x_of rs d)) \<and>
      flt (fadd (min_y (box_of rs)) (edge_y_of rs d)) (Finite (rs ! (3 * k + 1))) \<and>
      flt (Finite (rs ! (3 * k + 1))) (fsub (max_y (box_of rs)) (edge_y_of rs d)) \<and>
      0 < rs ! (3 * k + 2))"

text \<open>The elevations of the interior vertices, in the order of the vertices.\<close>

definition interior_zs :: "real list \<Rightarrow> pyfloat \<Rightarrow> real list" where
  "interior_zs rs d =
     map (\<lambda>k. rs ! (3 * k + 2)) (filter (interior_at rs d) [0..<length rs div 3])"

text \<open>The mean of a list of elevations: their float sum from 0, over their number.\<close>

definition mean_of :: "real list \<Rightarrow> pyfloat" where
  "mean_of zs = fdiv (foldl fadd (Finite 0) (map Finite zs)) (Finite (real (length zs)))"

text \<open>
  The normalised distance from one side of the box: the distance \<open>a\<close> over the edge
  margin \<open>e\<close> of that axis, and 1 when the margin is not positive. The normalised minimum
  edge distance of vertex \<open>k\<close> is the least of the four.
\<close>

definition side_dist :: "pyfloat \<Rightarrow> pyfloat \<Rightarrow> pyfloat" where
  "side_dist e a = (if flt (Finite 0) e then fdiv a e else Finite 1)"

definition least2 :: "pyfloat \<Rightarrow> pyfloat \<Rightarrow> pyfloat" where
  "least2 a b = (if fle a b then a else b)"

definition edge_dist :: "real list \<Rightarrow> pyfloat \<Rightarrow> nat \<Rightarrow> pyfloat" where
  "edge_dist rs d k =
     least2 (side_dist (edge_x_of rs d) (fsub (Finite (rs ! (3 * k))) (min_x (box_of rs))))
    (least2 (side_dist (edge_x_of rs d) (fsub (max_x (box_of rs)) (Finite (rs ! (3 * k)))))
    (least2 (side_dist (edge_y_of rs d) (fsub (Finite (rs ! (3 * k + 1))) (min_y (box_of rs))))
            (side_dist (edge_y_of rs d) (fsub (max_y (box_of rs)) (Finite (rs ! (3 * k + 1)))))))"

text \<open>The coordinates of the example terrain.\<close>

definition terrain_coords :: "real list" where
  "terrain_coords =
     [0, 0, 10,  5, 0, 10,  10, 0, -1,  0, 5, 10,  5, 5, 20,  10, 5, 10,
      0, 10, 10,  5, 10, 100,  10, 10, 10,  1, 5, 14,  4, 4, 16]"
section \<open>Vocabulary of the round trip\<close>

text \<open>
  A string without a line terminator; a string that \<^verbatim>\<open>split()\<close> returns as one part;
  a text made of lines.
\<close>

definition no_break :: "string \<Rightarrow> bool" where
  "no_break s = (\<forall>c \<in> set s. c \<noteq> CR \<and> c \<noteq> LF)"

definition token :: "string \<Rightarrow> bool" where
  "token s = (s \<noteq> [] \<and> (\<forall>c \<in> set s. \<not> py_isspace c))"

definition unlines :: "string list \<Rightarrow> string" where
  "unlines ls = concat (map (\<lambda>l. l @ [LF]) ls)"

text \<open>
  The lines \<^verbatim>\<open>json_to_obj\<close> writes: one per vertex, one per face, after the header.
\<close>

definition vline :: "(pyfloat \<Rightarrow> string) \<Rightarrow> pyfloat list \<Rightarrow> nat \<Rightarrow> string" where
  "vline fmt vs k = ''v '' @ fmt (vx vs k) @ '' '' @ fmt (vy vs k) @ '' '' @ fmt (vz vs k)"

definition fline :: "int list \<Rightarrow> nat \<Rightarrow> string" where
  "fline fs k =
     ''f '' @ py_str_int (fs ! (3 * k) + 1) @ '' '' @ py_str_int (fs ! (3 * k + 1) + 1) @ '' ''
       @ py_str_int (fs ! (3 * k + 2) + 1)"

definition header_lines :: "string \<Rightarrow> nat \<Rightarrow> nat \<Rightarrow> string list" where
  "header_lines name num_vertices num_faces =
     [''# Exported from qgis2threejs JSON by blender_mesh_converter.py'',
      ''# Original file: '' @ name,
      ''# Vertices: '' @ py_str_int (int num_vertices) @ '', Faces: '' @ py_str_int (int num_faces),
      ''#'',
      ''# IMPORTANT: Only edit Z values (elevation) in Blender!'',
      ''# Do not move, rotate, or scale the mesh.'',
      ''#'',
      '''']"

section \<open>Example OBJ files\<close>

text \<open>
  A reader of unsigned decimal numerals, used as \<open>to_int\<close> and \<open>to_float\<close> on the
  examples: on such numerals it agrees with \<^verbatim>\<open>int()\<close> and \<^verbatim>\<open>float()\<close>.
\<close>

definition digit_val :: "char \<Rightarrow> nat option" where
  "digit_val c =
     (if 48 \<le> (of_char c :: nat) \<and> (of_char c :: nat) \<le> 57
      then Some ((of_char c :: nat) - 48) else None)"

fun digits_val :: "nat \<Rightarrow> string \<Rightarrow> nat option" where
  "digits_val n [] = Some n"
| "digits_val n (c # cs) =
     (case digit_val c of None \<Rightarrow> None | Some d \<Rightarrow> digits_val (10 * n + d) cs)"

definition dec_int :: "string \<Rightarrow> int option" where
  "dec_int s = (if s = [] then None else map_option int (digits_val 0 s))"

definition dec_float :: "string \<Rightarrow> pyfloat option" where
  "dec_float s = map_option (\<lambda>n. Finite (real_of_int n)) (dec_int s)"

text \<open>
  Three edits of the unit square: one vertex added and both faces redrawn; all elevations
  raised to 3 with a single face line left; one vertex and one face deleted.
\<close>

definition edited_obj :: string where
  "edited_obj = ''# edited'' @ [LF] @ ''v 0 0 1'' @ [LF] @ ''v 1 0 1'' @ [LF] @ ''v 0 1 1'' @ [LF]
     @ ''v 1 1 1'' @ [LF] @ ''v 2 2 1'' @ [LF] @ [LF] @ ''f 1 2 5'' @ [LF] @ ''f 2 4 5'' @ [LF]"

definition same_count_obj :: string where
  "same_count_obj = ''v 0 0 3'' @ [LF] @ ''v 1 0 3'' @ [LF] @ ''v 0 1 3'' @ [LF]
     @ ''v 1 1 3'' @ [LF] @ ''f 4 3 2'' @ [LF]"

definition cut_obj :: string where
  "cut_obj = ''v 0 0 1'' @ [LF] @ ''v 1 0 1'' @ [LF] @ ''v 0 1 1'' @ [LF] @ ''f 1 2 3'' @ [LF]"

definition edited_vs :: "pyfloat list" where
  "edited_vs = map Finite [0, 0, 1,  1, 0, 1,  0, 1, 1,  1, 1, 1,  2, 2, 1]"

definition edited_fs :: "int list" where
  "edited_fs = [0, 1, 4, 1, 3, 4]"

definition cut_vs :: "pyfloat list" where
  "cut_vs = map Finite [0, 0, 1,  1, 0, 1,  0, 1, 1]"

definition default_answer :: "string list" where
  "default_answer = [[]]"

text \<open>
  \<^verbatim>\<open>f"{x}"\<close> on the examples, whose coordinates are whole numbers held as ints: the
  decimal digits.
\<close>

definition fmt_whole :: "pyfloat \<Rightarrow> string" where
  "fmt_whole x =
     (case x of Finite a \<Rightarrow> py_str_int \<lfloor>a\<rfloor> | PosInf \<Rightarrow> ''inf'' | NegInf \<Rightarrow> ''-inf''
      | NaN \<Rightarrow> ''nan'')"

definition unit_square_obj :: string where
  "unit_square_obj =
     ''# Exported from qgis2threejs JSON by blender_mesh_converter.py'' @ [LF] @
     ''# Original file: a0.json'' @ [LF] @
     ''# Vertices: 4, Faces: 2'' @ [LF] @
     ''#'' @ [LF] @
     ''# IMPORTANT: Only edit Z values (elevation) in Blender!'' @ [LF] @
     ''# Do not move, rotate, or scale the mesh.'' @ [LF] @
     ''#'' @ [LF] @ [LF] @
     ''v 0 0 1'' @ [LF] @ ''v 1 0 1'' @ [LF] @ ''v 0 1 1'' @ [LF] @ ''v 1 1 1'' @ [LF] @ [LF] @
     ''f 1 2 3'' @ [LF] @ ''f 2 4 3'' @ [LF]"

section \<open>Evaluation on the examples\<close>

lemmas loop_simps =
  bounds_loop.simps mark_loop.simps filter_loop.simps interior_loop.simps smooth_loop.simps

lemmas op_defs =
  find_bounds_def init_bounds_def py_min2_def py_max2_def trim_bounds_def fsub_def
  inside_box_def edge_width_def is_interior_def py_sum_def py_min_list_def py_max_list_def
  min_dist_def edge_elevation_def interior_stats_of_def

lemmas vocab_defs =
  vx_def vy_def vz_def interior_vertices_def interior_elevations_def vertex_min_dist_def

section \<open>The loops succeed on whole triples\<close>

lemma bounds_loop_ok:
  "length vs mod 3 = 0 \<Longrightarrow> i mod 3 = 0 \<Longrightarrow> \<exists>b'. bounds_loop vs i b = Inr b'"
proof (induction vs i b rule: bounds_loop.induct)
  case (1 vs i b)
  show ?case
  proof (cases "i < length vs")
    case True
    with "1.prems" have lt: "i + 1 < length vs" by presburger
    from "1.prems" have "(i + 3) mod 3 = 0" by presburger
    with "1.IH"[OF True lt "1.prems"(1)] True lt show ?thesis
      by (subst bounds_loop.simps) simp
  next
    case False
    then show ?thesis by (subst bounds_loop.simps) simp
  qed
qed

lemma find_bounds_ok: "length vs mod 3 = 0 \<Longrightarrow> \<exists>b. find_bounds vs = Inr b"
  unfolding find_bounds_def by (rule bounds_loop_ok) simp_all

lemma mark_loop_ok:
  "length vs mod 3 = 0 \<Longrightarrow> i mod 3 = 0 \<Longrightarrow> \<exists>r. mark_loop nb vs i acc = Inr r"
proof (induction nb vs i acc rule: mark_loop.induct)
  case (1 nb vs i acc)
  show ?case
  proof (cases "i < length vs")
    case True
    with "1.prems" have lt: "i + 1 < length vs" by presburger
    from "1.prems" have "(i + 3) mod 3 = 0" by presburger
    with "1.IH"[OF True lt "1.prems"(1)] True lt show ?thesis
      by (subst mark_loop.simps) simp
  next
    case False
    then show ?thesis by (subst mark_loop.simps) simp
  qed
qed

section \<open>The smoothing loops\<close>

lemma interior_loop_step:
  "i + 2 < length vs \<Longrightarrow>
   interior_loop b ex ey vs i acc =
     interior_loop b ex ey vs (i + 3)
       (if is_interior b ex ey (vs ! i) (vs ! (i + 1)) (vs ! (i + 2)) then acc @ [vs ! (i + 2)] else acc)"
  by (subst interior_loop.simps) simp

lemma interior_loop_stop: "length vs \<le> i \<Longrightarrow> interior_loop b ex ey vs i acc = Inr acc"
  by (subst interior_loop.simps) simp

lemma interior_loop_err:
  "i < length vs \<Longrightarrow> length vs \<le> i + 2 \<Longrightarrow> interior_loop b ex ey vs i acc = Inl IndexError"
  by (subst interior_loop.simps) simp

lemma smooth_loop_step:
  "i + 2 < length vs \<Longrightarrow>
   smooth_loop b ex ey st s vs i = smooth_loop b ex ey st s (smooth_step b ex ey st s vs i) (i + 3)"
  by (subst smooth_loop.simps) (simp add: smooth_step_def Let_def)

lemma smooth_loop_stop: "length vs \<le> i \<Longrightarrow> smooth_loop b ex ey st s vs i = Inr vs"
  by (subst smooth_loop.simps) simp

lemma smooth_loop_err:
  "i < length vs \<Longrightarrow> length vs \<le> i + 2 \<Longrightarrow> smooth_loop b ex ey st s vs i = Inl IndexError"
  by (subst smooth_loop.simps) simp

lemma length_smooth_step [simp]: "length (smooth_step b ex ey st s vs i) = length vs"
  by (simp add: smooth_step_def)

lemma interior_loop_eq:
  "length vs = 3 * n \<Longrightarrow> j \<le> n \<Longrightarrow>
   interior_loop b ex ey vs (3 * j) acc =
     Inr (acc @ map (vz vs) (filter (\<lambda>k. is_interior b ex ey (vx vs k) (vy vs k) (vz vs k)) [j..<n]))"
proof (induction "n - j" arbitrary: j acc)
  case 0
  then have "j = n" by simp
  with 0 show ?case by (simp add: interior_loop_stop)
next
  case (Suc d)
  then have lt: "j < n" by simp
  with Suc.prems have a: "3 * j + 2 < length vs" by linarith
  have d: "d = n - Suc j" using Suc.hyps(2) by simp
  have s: "3 * j + 3 = 3 * Suc j" by simp
  have up: "[j..<n] = j # [Suc j..<n]" using lt by (simp add: upt_conv_Cons)
  have le: "Suc j \<le> n" using lt by simp
  show ?case
    unfolding interior_loop_step[OF a] s Suc.hyps(1)[OF d Suc.prems(1) le] up
    by (simp add: vx_def vy_def vz_def)
qed

lemma smooth_loop_length:
  "smooth_loop b ex ey st s vs i = Inr vs' \<Longrightarrow> length vs' = length vs"
proof (induction b ex ey st s vs i rule: smooth_loop.induct)
  case (1 b ex ey st s vs i)
  consider (stop) "length vs \<le> i" | (err) "i < length vs" "length vs \<le> i + 2" | (step) "i + 2 < length vs"
    by linarith
  then show ?case
  proof cases
    case stop
    with "1.prems" show ?thesis by (simp add: smooth_loop_stop)
  next
    case err
    with "1.prems" show ?thesis by (simp add: smooth_loop_err)
  next
    case step
    then have i: "i < length vs" by simp
    have "smooth_loop b ex ey st s (smooth_step b ex ey st s vs i) (i + 3) = Inr vs'"
      using "1.prems" by (simp only: smooth_loop_step[OF step])
    then have "length vs' = length (smooth_step b ex ey st s vs i)"
      using "1.IH"[OF i step refl refl refl refl] by (simp only: smooth_step_def)
    then show ?thesis by simp
  qed
qed

lemma nat_low_not_z: "(j::nat) < i + 2 \<Longrightarrow> \<not> (i \<le> j \<and> (j - i) mod 3 = 2)"
  by auto

lemma nat_hit_above: "i + 3 \<le> (j::nat) \<Longrightarrow> (j - (i + 3)) mod 3 = 2 \<Longrightarrow> i + 5 \<le> j"
  by (cases "j - (i + 3)") auto

lemma nat_mod3_shift: "i + 3 \<le> (j::nat) \<Longrightarrow> (j - (i + 3)) mod 3 = (j - i) mod 3"
proof -
  assume "i + 3 \<le> j"
  then have "j - i = (j - (i + 3)) + 3" by simp
  then show ?thesis by (metis mod_add_self2)
qed

lemma smoothed_at_miss:
  "\<not> (i \<le> j \<and> (j - i) mod 3 = 2) \<Longrightarrow> smoothed_at b ex ey st s vs i j = vs ! j"
proof -
  assume "\<not> (i \<le> j \<and> (j - i) mod 3 = 2)"
  then have "\<not> (i \<le> j \<and> (j - i) mod 3 = 2 \<and>
      flt (min_dist b ex ey (vs ! (j - 2)) (vs ! (j - 1))) (Finite 1))"
    by blast
  then show ?thesis unfolding smoothed_at_def by (rule if_not_P)
qed

lemma smoothed_at_hit:
  "i \<le> j \<Longrightarrow> (j - i) mod 3 = 2 \<Longrightarrow>
   smoothed_at b ex ey st s vs i j =
     (if flt (min_dist b ex ey (vs ! (j - 2)) (vs ! (j - 1))) (Finite 1)
      then edge_elevation st s (min_dist b ex ey (vs ! (j - 2)) (vs ! (j - 1))) (vs ! j)
      else vs ! j)"
  unfolding smoothed_at_def by (simp only: if_True simp_thms)

lemma smooth_step_nth_other: "k \<noteq> i + 2 \<Longrightarrow> smooth_step b ex ey st s vs i ! k = vs ! k"
  by (simp add: smooth_step_def)

lemma smooth_step_nth_z:
  "i + 2 < length vs \<Longrightarrow>
   smooth_step b ex ey st s vs i ! (i + 2) =
     (if flt (min_dist b ex ey (vs ! i) (vs ! (i + 1))) (Finite 1)
      then edge_elevation st s (min_dist b ex ey (vs ! i) (vs ! (i + 1))) (vs ! (i + 2))
      else vs ! (i + 2))"
  by (simp add: smooth_step_def)

lemma smooth_loop_nth:
  "smooth_loop b ex ey st s vs i = Inr vs' \<Longrightarrow> j < length vs \<Longrightarrow>
   vs' ! j = smoothed_at b ex ey st s vs i j"
proof (induction b ex ey st s vs i arbitrary: j rule: smooth_loop.induct)
  case (1 b ex ey st s vs i)
  consider (stop) "length vs \<le> i" | (err) "i < length vs" "length vs \<le> i + 2" | (step) "i + 2 < length vs"
    by linarith
  then show ?case
  proof cases
    case stop
    with "1.prems" have eq: "vs' = vs" by (simp add: smooth_loop_stop)
    from stop "1.prems"(2) have n: "\<not> (i \<le> j \<and> (j - i) mod 3 = 2)" by simp
    show ?thesis unfolding eq smoothed_at_miss[OF n] by (rule refl)
  next
    case err
    with "1.prems" show ?thesis by (simp add: smooth_loop_err)
  next
    case step
    then have i: "i < length vs" by simp
    define vs1 where "vs1 = smooth_step b ex ey st s vs i"
    have rec: "smooth_loop b ex ey st s vs1 (i + 3) = Inr vs'"
      using "1.prems"(1) by (simp only: smooth_loop_step[OF step] vs1_def)
    have len: "j < length vs1" using "1.prems"(2) by (simp add: vs1_def)
    have "vs' ! j = smoothed_at b ex ey st s (smooth_step b ex ey st s vs i) (i + 3) j"
      unfolding smooth_step_def
      by (rule "1.IH"[OF i step refl refl refl refl])
         (use rec len in \<open>simp_all only: vs1_def smooth_step_def\<close>)
    then have ih: "vs' ! j = smoothed_at b ex ey st s vs1 (i + 3) j" by (simp only: vs1_def)
    have same: "k \<noteq> i + 2 \<Longrightarrow> vs1 ! k = vs ! k" for k
      unfolding vs1_def by (rule smooth_step_nth_other)
    consider (c) "j = i + 2" | (low) "j < i + 2" | (above) "i + 3 \<le> j"
      by linarith
    then show ?thesis
    proof cases
      case low
      then have n1: "\<not> (i + 3 \<le> j \<and> (j - (i + 3)) mod 3 = 2)" by simp
      from low have n2: "\<not> (i \<le> j \<and> (j - i) mod 3 = 2)" by (rule nat_low_not_z)
      from low have "j \<noteq> i + 2" by simp
      then show ?thesis
        unfolding ih smoothed_at_miss[OF n1] smoothed_at_miss[OF n2] by (rule same)
    next
      case c
      then have n1: "\<not> (i + 3 \<le> j \<and> (j - (i + 3)) mod 3 = 2)" by simp
      have h1: "i \<le> i + 2" and h2: "(i + 2 - i) mod 3 = 2" by simp_all
      have e1: "i + 2 - 2 = i" and e2: "i + 2 - 1 = i + 1" by simp_all
      have "vs' ! j = vs1 ! (i + 2)"
        unfolding ih smoothed_at_miss[OF n1] by (simp only: c)
      also have "\<dots> = smoothed_at b ex ey st s vs i (i + 2)"
        unfolding smoothed_at_hit[OF h1 h2] e1 e2 vs1_def by (rule smooth_step_nth_z[OF step])
      finally show ?thesis by (simp only: c)
    next
      case above
      show ?thesis
      proof (cases "(j - (i + 3)) mod 3 = 2")
        case True
        with above have j5: "i + 5 \<le> j" by (rule nat_hit_above)
        have m: "(j - i) mod 3 = 2" using True nat_mod3_shift[OF above] by simp
        have ij: "i \<le> j" using above by simp
        have r: "vs1 ! (j - 2) = vs ! (j - 2)" "vs1 ! (j - 1) = vs ! (j - 1)" "vs1 ! j = vs ! j"
          using j5 by (simp_all add: same)
        show ?thesis
          unfolding ih smoothed_at_hit[OF above True] smoothed_at_hit[OF ij m] r by (rule refl)
      next
        case False
        then have n1: "\<not> (i + 3 \<le> j \<and> (j - (i + 3)) mod 3 = 2)" by simp
        have n2: "\<not> (i \<le> j \<and> (j - i) mod 3 = 2)" using False nat_mod3_shift[OF above] by simp
        have "j \<noteq> i + 2" using above by simp
        then show ?thesis
          unfolding ih smoothed_at_miss[OF n1] smoothed_at_miss[OF n2] by (rule same)
      qed
    qed
  qed
qed

lemma smooth_loop_ok:
  "length vs mod 3 = 0 \<Longrightarrow> i mod 3 = 0 \<Longrightarrow> \<exists>vs'. smooth_loop b ex ey st s vs i = Inr vs'"
proof (induction b ex ey st s vs i rule: smooth_loop.induct)
  case (1 b ex ey st s vs i)
  show ?case
  proof (cases "i < length vs")
    case True
    with "1.prems" have lt: "i + 2 < length vs" by presburger
    from "1.prems" have n: "(i + 3) mod 3 = 0" by presburger
    have "\<exists>vs'. smooth_loop b ex ey st s (smooth_step b ex ey st s vs i) (i + 3) = Inr vs'"
      unfolding smooth_step_def
      by (rule "1.IH"[OF True lt refl refl refl refl _ n])
         (use "1.prems"(1) in \<open>simp only: length_list_update if_distrib[of length] if_cancel\<close>)
    then show ?thesis by (simp only: smooth_loop_step[OF lt])
  next
    case False
    then show ?thesis by (simp add: smooth_loop_stop)
  qed
qed

lemma smoothed_at_xy:
  "smoothed_at b ex ey st s vs 0 (3 * k) = vs ! (3 * k)"
  "smoothed_at b ex ey st s vs 0 (3 * k + 1) = vs ! (3 * k + 1)"
  by (rule smoothed_at_miss, simp)+

lemma smoothed_at_z:
  "smoothed_at b ex ey st s vs 0 (3 * k + 2) =
     (if flt (min_dist b ex ey (vs ! (3 * k)) (vs ! (3 * k + 1))) (Finite 1)
      then edge_elevation st s (min_dist b ex ey (vs ! (3 * k)) (vs ! (3 * k + 1))) (vs ! (3 * k + 2))
      else vs ! (3 * k + 2))"
proof -
  have a: "0 \<le> 3 * k + 2" by simp
  have "(3 * k + 2) mod 3 = 2" by presburger
  then have c: "(3 * k + 2 - 0) mod 3 = 2" by simp
  from smoothed_at_hit[OF a c] show ?thesis by simp
qed

lemma interior_loop_all:
  assumes "length vs mod 3 = 0"
  shows "interior_loop b (edge_width (min_x b) (max_x b) d) (edge_width (min_y b) (max_y b) d) vs 0 [] =
         Inr (interior_elevations b d vs)"
proof -
  from assms have "\<exists>n. length vs = 3 * n" by presburger
  then obtain n where n: "length vs = 3 * n" by blast
  then have "length vs div 3 = n" by simp
  then show ?thesis
    using interior_loop_eq[OF n, of 0 b _ _ "[]"]
    by (simp add: interior_elevations_def interior_vertices_def)
qed

lemma smooth_edges_valid:
  assumes len: "length (vertices m) mod 3 = 0" and b: "find_bounds (vertices m) = Inr b"
  shows "smooth_edges m d s =
         (if interior_elevations b d (vertices m) = [] then Inr Returned_input_path
          else case smooth_loop b (edge_width (min_x b) (max_x b) d) (edge_width (min_y b) (max_y b) d)
                      (interior_stats_of (interior_elevations b d (vertices m))) s (vertices m) 0 of
                 Inl e \<Rightarrow> Inl e
               | Inr vs' \<Rightarrow> Inr (Written \<lparr>vertices = vs', faces = faces m\<rparr>))"
  by (simp add: smooth_edges_def b Let_def interior_loop_all[OF len])

lemma fle_not_flt: "fle a b \<Longrightarrow> \<not> flt b a"
  by (cases a; cases b) auto

lemma smooth_edges_WrittenD:
  assumes "smooth_edges m d s = Inr (Written m')"
  obtains b ie where "find_bounds (vertices m) = Inr b"
    and "smooth_loop b (edge_width (min_x b) (max_x b) d) (edge_width (min_y b) (max_y b) d)
           (interior_stats_of ie) s (vertices m) 0 = Inr (vertices m')"
    and "faces m' = faces m"
  using assms unfolding smooth_edges_def Let_def
  by (auto split: sum.splits if_splits)
section \<open>The loops of trim\_edges\<close>

lemma mod3_ex: "(k::nat) mod 3 = 0 \<Longrightarrow> \<exists>n. k = 3 * n"
  by presburger

lemma mark_loop_step:
  "i + 1 < length vs \<Longrightarrow>
   mark_loop nb vs i acc = mark_loop nb vs (i + 3) (acc @ [inside_box nb (vs ! i) (vs ! (i + 1))])"
  by (subst mark_loop.simps) simp

lemma mark_loop_stop: "length vs \<le> i \<Longrightarrow> mark_loop nb vs i acc = Inr acc"
  by (subst mark_loop.simps) simp

lemma mark_loop_eq:
  "length vs = 3 * n \<Longrightarrow> j \<le> n \<Longrightarrow>
   mark_loop nb vs (3 * j) acc =
     Inr (acc @ map (\<lambda>k. inside_box nb (vx vs k) (vy vs k)) [j..<n])"
proof (induction "n - j" arbitrary: j acc)
  case 0
  then have "j = n" by simp
  with 0 show ?case by (simp add: mark_loop_stop)
next
  case (Suc d)
  then have lt: "j < n" by simp
  with Suc.prems have a: "3 * j + 1 < length vs" by linarith
  have d: "d = n - Suc j" using Suc.hyps(2) by simp
  have s: "3 * j + 3 = 3 * Suc j" by simp
  have up: "[j..<n] = j # [Suc j..<n]" using lt by (simp add: upt_conv_Cons)
  have le: "Suc j \<le> n" using lt by simp
  show ?case
    unfolding mark_loop_step[OF a] s Suc.hyps(1)[OF d Suc.prems(1) le] up
    by (simp add: vx_def vy_def)
qed

lemma py_index_nat: "0 \<le> v \<Longrightarrow> v < int (length xs) \<Longrightarrow> py_index xs v = Inr (xs ! nat v)"
  by (simp add: py_index_def)

lemma keep_face_valid:
  assumes "0 \<le> a \<and> a < int (length ins)" "0 \<le> b \<and> b < int (length ins)"
    "0 \<le> c \<and> c < int (length ins)"
  shows "keep_face ins a b c = Inr (ins ! nat a \<and> ins ! nat b \<and> ins ! nat c)"
  using assms by (simp add: keep_face_def py_index_nat)

lemma filter_loop_step:
  "i + 2 < length fs \<Longrightarrow> keep_face ins (fs ! i) (fs ! (i + 1)) (fs ! (i + 2)) = Inr k \<Longrightarrow>
   filter_loop ins fs i acc =
     filter_loop ins fs (i + 3) (if k then acc @ [fs ! i, fs ! (i + 1), fs ! (i + 2)] else acc)"
  by (subst filter_loop.simps) simp

lemma filter_loop_stop: "length fs \<le> i \<Longrightarrow> filter_loop ins fs i acc = Inr acc"
  by (subst filter_loop.simps) simp

lemma filter_loop_eq:
  assumes "length fs = 3 * n" and "\<forall>f \<in> set fs. 0 \<le> f \<and> f < int (length ins)"
  shows "j \<le> n \<Longrightarrow>
   filter_loop ins fs (3 * j) acc =
     Inr (acc @ concat (map (face_at fs)
        (filter (\<lambda>k. ins ! nat (fs ! (3 * k)) \<and> ins ! nat (fs ! (3 * k + 1)) \<and>
                      ins ! nat (fs ! (3 * k + 2))) [j..<n])))"
proof (induction "n - j" arbitrary: j acc)
  case 0
  then have "j = n" by simp
  with assms(1) show ?case by (simp add: filter_loop_stop)
next
  case (Suc d)
  then have lt: "j < n" by simp
  with assms(1) have a: "3 * j + 2 < length fs" by linarith
  then have a0: "3 * j < length fs" and a1: "3 * j + 1 < length fs" by simp_all
  have d: "d = n - Suc j" using Suc.hyps(2) by simp
  have s: "3 * j + 3 = 3 * Suc j" by simp
  have up: "[j..<n] = j # [Suc j..<n]" using lt by (simp add: upt_conv_Cons)
  have le: "Suc j \<le> n" using lt by simp
  have k: "keep_face ins (fs ! (3 * j)) (fs ! (3 * j + 1)) (fs ! (3 * j + 2)) =
           Inr (ins ! nat (fs ! (3 * j)) \<and> ins ! nat (fs ! (3 * j + 1)) \<and> ins ! nat (fs ! (3 * j + 2)))"
    using assms(2) nth_mem[OF a0] nth_mem[OF a1] nth_mem[OF a] by (intro keep_face_valid) blast+
  show ?case
    unfolding filter_loop_step[OF a k] s Suc.hyps(1)[OF d le] up
    by (simp add: face_at_def)
qed

lemma filter_cong_upt:
  "(\<And>k. k < n \<Longrightarrow> P k = Q k) \<Longrightarrow> filter P [0..<n] = filter Q [0..<n]"
  by (rule filter_cong) auto

text \<open>
  On a valid mesh with at least one face, \<^verbatim>\<open>trim_edges\<close> writes the input's vertices
  and exactly the kept faces, in order. The kept faces are those of the model's arithmetic:
  the trim bounds are computed exactly, where Python rounds them and a width beyond the
  largest double overflows.
\<close>

lemma trim_edges_valid:
  assumes v: "valid_mesh m" and ne: "faces m \<noteq> []" and b: "find_bounds (vertices m) = Inr b"
  shows "trim_edges m trim_percent =
         Inr \<lparr>vertices = vertices m,
              faces = kept_faces (trim_bounds b trim_percent) (vertices m) (faces m)\<rparr>"
proof -
  let ?vs = "vertices m" and ?fs = "faces m" and ?nb = "trim_bounds b trim_percent"
  from v have "length ?vs mod 3 = 0" by (simp add: valid_mesh_def)
  then obtain n where n: "length ?vs = 3 * n" by (blast dest: mod3_ex)
  from v have "length ?fs mod 3 = 0" by (simp add: valid_mesh_def)
  then obtain f where f: "length ?fs = 3 * f" by (blast dest: mod3_ex)
  let ?ins = "map (\<lambda>k. inside_box ?nb (vx ?vs k) (vy ?vs k)) [0..<n]"
  have mark: "mark_loop ?nb ?vs 0 [] = Inr ?ins"
    using mark_loop_eq[OF n, of 0 ?nb "[]"] by simp
  have rng: "\<forall>x \<in> set ?fs. 0 \<le> x \<and> x < int (length ?ins)"
    using v n unfolding valid_mesh_def by simp
  have ins: "?ins ! nat x = vertex_in ?nb ?vs x" if "x \<in> set ?fs" for x
  proof -
    from rng that have "nat x < n" by auto
    then show ?thesis by (simp add: vertex_in_def)
  qed
  have flt_eq: "filter (\<lambda>k. ?ins ! nat (?fs ! (3 * k)) \<and> ?ins ! nat (?fs ! (3 * k + 1)) \<and>
                      ?ins ! nat (?fs ! (3 * k + 2))) [0..<f]
        = filter (face_kept ?nb ?vs ?fs) [0..<f]"
  proof (rule filter_cong_upt)
    fix k assume "k < f"
    with f have "3 * k + 2 < length ?fs" by linarith
    then have "?fs ! (3 * k) \<in> set ?fs" "?fs ! (3 * k + 1) \<in> set ?fs" "?fs ! (3 * k + 2) \<in> set ?fs"
      by simp_all
    then show "(?ins ! nat (?fs ! (3 * k)) \<and> ?ins ! nat (?fs ! (3 * k + 1)) \<and>
                      ?ins ! nat (?fs ! (3 * k + 2))) = face_kept ?nb ?vs ?fs k"
      by (simp only: ins face_kept_def)
  qed
  have fd: "length ?fs div 3 = f" using f by simp
  have "filter_loop ?ins ?fs 0 [] = Inr (kept_faces ?nb ?vs ?fs)"
    unfolding kept_faces_def fd flt_eq[symmetric]
    using filter_loop_eq[OF f rng, of 0 "[]"] by simp
  moreover have "length ?fs div 3 \<noteq> 0" using ne f by (cases f) auto
  ultimately show ?thesis
    by (simp add: trim_edges_def b mark)
qed

section \<open>Bounds of finite coordinates\<close>

lemma foldl_min_real: "foldl py_min2 (Finite a) (map Finite rs) = Finite (foldl min a rs)"
  by (induction rs arbitrary: a) (auto simp: py_min2_def min_def)

lemma foldl_max_real: "foldl py_max2 (Finite a) (map Finite rs) = Finite (foldl max a rs)"
  by (induction rs arbitrary: a) (auto simp: py_max2_def max_def)

lemma foldl_min_le: "foldl min (a::real) rs \<le> a \<and> (\<forall>r \<in> set rs. foldl min a rs \<le> r)"
proof (induction rs arbitrary: a)
  case Nil
  then show ?case by simp
next
  case (Cons r rs)
  from Cons.IH[of "min a r"] show ?case by auto
qed

lemma foldl_max_ge: "a \<le> foldl max (a::real) rs \<and> (\<forall>r \<in> set rs. r \<le> foldl max a rs)"
proof (induction rs arbitrary: a)
  case Nil
  then show ?case by simp
next
  case (Cons r rs)
  from Cons.IH[of "max a r"] show ?case by auto
qed

lemma bounds_loop_step:
  "i + 1 < length vs \<Longrightarrow>
   bounds_loop vs i b = bounds_loop vs (i + 3) (bounds_step b (vs ! i, vs ! (i + 1)))"
  by (subst bounds_loop.simps) (simp add: bounds_step_def)

lemma bounds_loop_stop: "length vs \<le> i \<Longrightarrow> bounds_loop vs i b = Inr b"
  by (subst bounds_loop.simps) simp

lemma bounds_loop_eq:
  "length vs = 3 * n \<Longrightarrow> j \<le> n \<Longrightarrow>
   bounds_loop vs (3 * j) b = Inr (foldl bounds_step b (map (\<lambda>k. (vx vs k, vy vs k)) [j..<n]))"
proof (induction "n - j" arbitrary: j b)
  case 0
  then have "j = n" by simp
  with 0 show ?case by (simp add: bounds_loop_stop)
next
  case (Suc d)
  then have lt: "j < n" by simp
  with Suc.prems have a: "3 * j + 1 < length vs" by linarith
  have d: "d = n - Suc j" using Suc.hyps(2) by simp
  have s: "3 * j + 3 = 3 * Suc j" by simp
  have up: "[j..<n] = j # [Suc j..<n]" using lt by (simp add: upt_conv_Cons)
  have le: "Suc j \<le> n" using lt by simp
  show ?case
    unfolding bounds_loop_step[OF a] s Suc.hyps(1)[OF d Suc.prems(1) le] up
    by (simp add: vx_def vy_def)
qed

lemma foldl_bounds_step:
  "foldl bounds_step b ps =
     \<lparr>min_x = foldl py_min2 (min_x b) (map fst ps), max_x = foldl py_max2 (max_x b) (map fst ps),
      min_y = foldl py_min2 (min_y b) (map snd ps), max_y = foldl py_max2 (max_y b) (map snd ps)\<rparr>"
  by (induction ps arbitrary: b) (simp_all add: bounds_step_def)

lemma foldl_min_from_inf:
  "xs \<noteq> [] \<Longrightarrow> \<exists>lo. foldl py_min2 PosInf (map Finite xs) = Finite lo \<and> (\<forall>x \<in> set xs. lo \<le> x)"
proof (cases xs)
  case Nil
  then show "xs \<noteq> [] \<Longrightarrow> ?thesis" by simp
next
  case (Cons x xs')
  have "foldl py_min2 PosInf (map Finite xs) = Finite (foldl min x xs')"
    by (simp add: Cons py_min2_def foldl_min_real)
  with foldl_min_le[of x xs'] Cons show ?thesis by auto
qed

lemma foldl_max_from_inf:
  "xs \<noteq> [] \<Longrightarrow> \<exists>hi. foldl py_max2 NegInf (map Finite xs) = Finite hi \<and> (\<forall>x \<in> set xs. x \<le> hi)"
proof (cases xs)
  case Nil
  then show "xs \<noteq> [] \<Longrightarrow> ?thesis" by simp
next
  case (Cons x xs')
  have "foldl py_max2 NegInf (map Finite xs) = Finite (foldl max x xs')"
    by (simp add: Cons py_max2_def foldl_max_real)
  with foldl_max_ge[of x xs'] Cons show ?thesis by auto
qed

lemma concat_face_at_take:
  "3 * j \<le> length fs \<Longrightarrow> concat (map (face_at fs) [0..<j]) = take (3 * j) fs"
proof (induction j)
  case 0
  then show ?case by simp
next
  case (Suc j)
  then have l: "3 * j + 2 < length fs" by simp
  then have l0: "3 * j < length fs" and l1: "3 * j + 1 < length fs" by simp_all
  have t: "take (3 * Suc j) fs = take (3 * j) fs @ [fs ! (3 * j), fs ! (3 * j + 1), fs ! (3 * j + 2)]"
  proof -
    have e: "3 * Suc j = Suc (Suc (Suc (3 * j)))" by simp
    show ?thesis unfolding e using l l0 l1 by (simp add: take_Suc_conv_app_nth)
  qed
  from Suc have ih: "concat (map (face_at fs) [0..<j]) = take (3 * j) fs" by simp
  have fa: "face_at fs j = [fs ! (3 * j), fs ! (3 * j + 1), fs ! (3 * j + 2)]"
    by (simp only: face_at_def)
  have "concat (map (face_at fs) [0..<Suc j]) = concat (map (face_at fs) [0..<j]) @ face_at fs j"
    by simp
  then show ?case by (simp only: ih fa t)
qed

text \<open>
  On whole triples of finite coordinates, at least one of them, the bounds are finite and
  enclose every vertex.
\<close>

lemma find_bounds_finite:
  assumes "length rs = 3 * n" and "0 < n"
  shows "\<exists>lx hx ly hy.
           find_bounds (map Finite rs) =
             Inr \<lparr>min_x = Finite lx, max_x = Finite hx, min_y = Finite ly, max_y = Finite hy\<rparr> \<and>
           (\<forall>k < n. lx \<le> rs ! (3 * k) \<and> rs ! (3 * k) \<le> hx \<and>
                    ly \<le> rs ! (3 * k + 1) \<and> rs ! (3 * k + 1) \<le> hy)"
proof -
  let ?vs = "map Finite rs"
  let ?xs = "map (\<lambda>k. rs ! (3 * k)) [0..<n]" and ?ys = "map (\<lambda>k. rs ! (3 * k + 1)) [0..<n]"
  have len: "length ?vs = 3 * n" using assms(1) by simp
  have px: "map fst (map (\<lambda>k. (vx ?vs k, vy ?vs k)) [0..<n]) = map Finite ?xs"
    using assms(1) by (simp add: vx_def)
  have py: "map snd (map (\<lambda>k. (vx ?vs k, vy ?vs k)) [0..<n]) = map Finite ?ys"
    using assms(1) by (simp add: vy_def)
  have ne: "?xs \<noteq> []" "?ys \<noteq> []" using assms(2) by simp_all
  from foldl_min_from_inf[OF ne(1)] obtain lx
    where lx: "foldl py_min2 PosInf (map Finite ?xs) = Finite lx" "\<forall>x \<in> set ?xs. lx \<le> x" by blast
  from foldl_max_from_inf[OF ne(1)] obtain hx
    where hx: "foldl py_max2 NegInf (map Finite ?xs) = Finite hx" "\<forall>x \<in> set ?xs. x \<le> hx" by blast
  from foldl_min_from_inf[OF ne(2)] obtain ly
    where ly: "foldl py_min2 PosInf (map Finite ?ys) = Finite ly" "\<forall>x \<in> set ?ys. ly \<le> x" by blast
  from foldl_max_from_inf[OF ne(2)] obtain hy
    where hy: "foldl py_max2 NegInf (map Finite ?ys) = Finite hy" "\<forall>x \<in> set ?ys. x \<le> hy" by blast
  have bl: "bounds_loop ?vs (3 * 0) init_bounds =
              Inr (foldl bounds_step init_bounds (map (\<lambda>k. (vx ?vs k, vy ?vs k)) [0..<n]))"
    by (rule bounds_loop_eq[OF len]) simp
  have fb: "foldl bounds_step init_bounds (map (\<lambda>k. (vx ?vs k, vy ?vs k)) [0..<n]) =
              \<lparr>min_x = Finite lx, max_x = Finite hx, min_y = Finite ly, max_y = Finite hy\<rparr>"
    by (simp only: foldl_bounds_step px py init_bounds_def bounds.select_convs
          lx(1) hx(1) ly(1) hy(1))
  have "find_bounds ?vs =
          Inr \<lparr>min_x = Finite lx, max_x = Finite hx, min_y = Finite ly, max_y = Finite hy\<rparr>"
    unfolding find_bounds_def using bl by (simp only: fb mult_0_right)
  moreover have "lx \<le> rs ! (3 * k) \<and> rs ! (3 * k) \<le> hx \<and>
                 ly \<le> rs ! (3 * k + 1) \<and> rs ! (3 * k + 1) \<le> hy" if "k < n" for k
  proof -
    from that have "rs ! (3 * k) \<in> set ?xs" "rs ! (3 * k + 1) \<in> set ?ys" by auto
    with lx(2) hx(2) ly(2) hy(2) show ?thesis by blast
  qed
  ultimately show ?thesis by blast
qed

text \<open>
  On a valid mesh of finite coordinates with at least one face, a trim fraction of 0 gives
  the mesh back, in the model's exact arithmetic. (In Python a width that overflows to an
  infinity makes the margin \<^verbatim>\<open>inf * 0\<close> not a number, and then every face is
  removed; the model has no overflow.)
\<close>

lemma trim_edges_zero_identity:
  assumes v: "valid_mesh m" and ne: "faces m \<noteq> []" and fin: "vertices m = map Finite rs"
  shows "trim_edges m (Finite 0) = Inr m"
proof -
  from v have "length rs mod 3 = 0" by (simp add: valid_mesh_def fin)
  then obtain n where n: "length rs = 3 * n" by (blast dest: mod3_ex)
  from v have "length (faces m) mod 3 = 0" by (simp add: valid_mesh_def)
  then obtain f where f: "length (faces m) = 3 * f" by (blast dest: mod3_ex)
  from ne obtain x where x: "x \<in> set (faces m)" by (cases "faces m") auto
  with v n have "0 \<le> x \<and> x < int n" by (simp add: valid_mesh_def fin)
  then have pos: "0 < n" by auto
  from find_bounds_finite[OF n pos] obtain lx hx ly hy
    where b: "find_bounds (vertices m) =
                Inr \<lparr>min_x = Finite lx, max_x = Finite hx, min_y = Finite ly, max_y = Finite hy\<rparr>"
      and le: "\<And>k. k < n \<Longrightarrow> lx \<le> rs ! (3 * k) \<and> rs ! (3 * k) \<le> hx \<and>
                    ly \<le> rs ! (3 * k + 1) \<and> rs ! (3 * k + 1) \<le> hy"
    unfolding fin by blast
  let ?b = "\<lparr>min_x = Finite lx, max_x = Finite hx, min_y = Finite ly, max_y = Finite hy\<rparr>"
  have tb: "trim_bounds ?b (Finite 0) = ?b"
    by (simp add: trim_bounds_def fsub_def)
  have vin: "vertex_in ?b (vertices m) y" if "y \<in> set (faces m)" for y
  proof -
    from v n that have r: "0 \<le> y \<and> y < int n" by (simp add: valid_mesh_def fin)
    then have k: "nat y < n" by auto
    with n have "3 * nat y + 1 < length rs" by linarith
    then show ?thesis
      using le[OF k] by (simp add: vertex_in_def inside_box_def vx_def vy_def fin)
  qed
  have "filter (face_kept ?b (vertices m) (faces m)) [0..<f] = [0..<f]"
  proof -
    have "face_kept ?b (vertices m) (faces m) k" if "k < f" for k
    proof -
      from that f have "3 * k + 2 < length (faces m)" by linarith
      then have "faces m ! (3 * k) \<in> set (faces m)" "faces m ! (3 * k + 1) \<in> set (faces m)"
        "faces m ! (3 * k + 2) \<in> set (faces m)" by simp_all
      then show ?thesis unfolding face_kept_def by (intro conjI vin)
    qed
    then show ?thesis by (simp add: filter_id_conv)
  qed
  then have "kept_faces ?b (vertices m) (faces m) = faces m"
    using concat_face_at_take[of f "faces m"] f by (simp add: kept_faces_def)
  with trim_edges_valid[OF v ne b, of "Finite 0"] show ?thesis
    by (simp add: tb)
qed

section \<open>Properties of trim\_edges\<close>

text \<open>
  C10. Some valid input makes \<^verbatim>\<open>trim_edges\<close> raise a division by zero while it
  computes the percentage of removed faces: every document whose vertex list consists of
  whole triples and whose face list is empty. The divisor \<^verbatim>\<open>num_faces_original\<close>
  is not guarded against zero.
\<close>

theorem trim_edges_no_faces_raises:
  assumes "length (vertices m) mod 3 = 0" and "faces m = []"
  shows "trim_edges m trim_percent = Inl ZeroDivisionError"
proof -
  obtain b where b: "find_bounds (vertices m) = Inr b"
    using find_bounds_ok[OF assms(1)] by blast
  obtain r where r: "mark_loop (trim_bounds b trim_percent) (vertices m) 0 [] = Inr r"
    using mark_loop_ok[OF assms(1), of 0] by auto
  show ?thesis
    by (simp add: trim_edges_def b r assms(2) filter_loop.simps)
qed

theorem trim_edges_no_faces_raises_witness:
  "length (vertices no_faces) mod 3 = 0 \<and> faces no_faces = [] \<and>
   trim_edges no_faces (Finite (2 / 100)) = Inl ZeroDivisionError"
proof -
  have v: "length (vertices no_faces) mod 3 = 0" and f: "faces no_faces = []"
    by (simp_all add: no_faces_def)
  from trim_edges_no_faces_raises[OF v f] v f show ?thesis by blast
qed

text \<open>
  C6 asks that \<^verbatim>\<open>trim_edges\<close> outputs, for every mesh and every trim fraction in
  [0, 0.5), the input's vertices and the faces whose three vertices lie in the inset box. With
  at least one face it does in the model's exact arithmetic (\<open>trim_edges_valid\<close>; rounding
  and overflow aside). On a document with vertices and no face the code raises instead of
  writing the document with its empty face list.
\<close>

theorem trim_edges_fails_without_faces:
  "trim_edges \<lparr>vertices = map Finite [0, 0, 1,  1, 0, 1,  0, 1, 1,  1, 1, 1], faces = []\<rparr>
     (Finite (2 / 100)) = Inl ZeroDivisionError"
  by (simp add: trim_edges_def loop_simps op_defs)

text \<open>
  C7 asks that \<^verbatim>\<open>trim_edges\<close> with a trim fraction of 0 is the identity on every
  valid mesh. With at least one face and finite coordinates it is in the model's exact
  arithmetic (\<open>trim_edges_zero_identity\<close>; overflow aside). On a document with vertices and
  no face the code raises.
\<close>

theorem trim_edges_zero_fails_without_faces:
  "trim_edges \<lparr>vertices = map Finite [0, 0, 1,  1, 0, 1,  0, 1, 1], faces = []\<rparr> (Finite 0)
     = Inl ZeroDivisionError"
  by (simp add: trim_edges_def loop_simps op_defs)

section \<open>Properties of smooth\_edges\<close>

text \<open>
  C2 asks that a bounds computation on an empty vertex list fails or returns a sentinel and
  never goes on with inverted infinite bounds. The bounds loop of \<^verbatim>\<open>trim_edges\<close> and
  \<^verbatim>\<open>smooth_edges\<close> returns the inverted infinities it started from, and both
  functions go on with them: \<^verbatim>\<open>smooth_edges\<close> returns normally, and
  \<^verbatim>\<open>trim_edges\<close> only stops at the division of line 325.
\<close>

theorem empty_vertices_inverted_bounds:
  "find_bounds [] =
     Inr \<lparr>min_x = PosInf, max_x = NegInf, min_y = PosInf, max_y = NegInf\<rparr> \<and>
   smooth_edges empty_mesh (Finite (5 / 100)) (Finite (1 / 2)) = Inr Returned_input_path \<and>
   trim_edges empty_mesh (Finite (2 / 100)) = Inl ZeroDivisionError"
  by (simp add: empty_mesh_def smooth_edges_def trim_edges_def loop_simps op_defs)

text \<open>
  C1 as stated: with no interior vertex \<^verbatim>\<open>smooth_edges\<close> fails with an error. It
  does not fail: on the unit square, whose four vertices all lie on the border, it returns
  normally.
\<close>

theorem smooth_edges_unit_square_returns:
  "interior_vertices unit_bounds (Finite (5 / 100)) (vertices unit_square) = [] \<and>
   find_bounds (vertices unit_square) = Inr unit_bounds \<and>
   \<not> isl (smooth_edges unit_square (Finite (5 / 100)) (Finite (1 / 2)))"
  by (simp add: unit_square_def unit_bounds_def smooth_edges_def loop_simps op_defs vocab_defs upt_conv_Cons)

text \<open>
  C1, amended. For every mesh of whole vertex triples whose interior vertex set (vertices
  strictly inside the box inset by the edge margins, with elevation above 0) is empty,
  \<^verbatim>\<open>smooth_edges\<close> writes no output mesh: it returns the input path, and raises no
  error.
\<close>

theorem smooth_edges_no_interior:
  assumes "length (vertices m) mod 3 = 0" and "find_bounds (vertices m) = Inr b"
    and "interior_vertices b edge_distance (vertices m) = []"
  shows "smooth_edges m edge_distance smooth_strength = Inr Returned_input_path"
  using assms(3) by (simp add: smooth_edges_valid[OF assms(1,2)] interior_elevations_def)

theorem smooth_edges_no_interior_witness:
  "length (vertices unit_square) mod 3 = 0 \<and>
   find_bounds (vertices unit_square) = Inr unit_bounds \<and>
   interior_vertices unit_bounds (Finite (5 / 100)) (vertices unit_square) = [] \<and>
   smooth_edges unit_square (Finite (5 / 100)) (Finite (1 / 2)) = Inr Returned_input_path"
proof -
  have l: "length (vertices unit_square) mod 3 = 0"
    by (simp add: unit_square_def)
  have b: "find_bounds (vertices unit_square) = Inr unit_bounds"
    by (simp add: unit_square_def unit_bounds_def loop_simps op_defs)
  have i: "interior_vertices unit_bounds (Finite (5 / 100)) (vertices unit_square) = []"
    by (simp add: unit_square_def unit_bounds_def op_defs vocab_defs upt_conv_Cons)
  from smooth_edges_no_interior[OF l b i] l b i show ?thesis by blast
qed

text \<open>
  C8. Whenever \<^verbatim>\<open>smooth_edges\<close> writes a mesh, that mesh has as many coordinates as
  the input, in the same order, and the same face list; the X and Y of every vertex are the
  input's; and the Z of every vertex whose normalised minimum edge distance is at least 1
  (a vertex outside the edge zone) is the input's. Only the Z of edge-zone vertices can
  differ.
\<close>

theorem smooth_edges_frame:
  assumes "smooth_edges m edge_distance smooth_strength = Inr (Written m')"
  shows "\<exists>b. find_bounds (vertices m) = Inr b \<and>
           length (vertices m') = length (vertices m) \<and> faces m' = faces m \<and>
           (\<forall>k. 3 * k + 2 < length (vertices m) \<longrightarrow>
              vx (vertices m') k = vx (vertices m) k \<and>
              vy (vertices m') k = vy (vertices m) k \<and>
              (fle (Finite 1) (vertex_min_dist b edge_distance (vertices m) k) \<longrightarrow>
                 vz (vertices m') k = vz (vertices m) k))"
proof -
  from assms obtain b ie where b: "find_bounds (vertices m) = Inr b"
    and loop: "smooth_loop b (edge_width (min_x b) (max_x b) edge_distance)
                 (edge_width (min_y b) (max_y b) edge_distance)
                 (interior_stats_of ie) smooth_strength (vertices m) 0 = Inr (vertices m')"
    and f: "faces m' = faces m"
    by (rule smooth_edges_WrittenD)
  note nth = smooth_loop_nth[OF loop]
  have "vx (vertices m') k = vx (vertices m) k \<and> vy (vertices m') k = vy (vertices m) k \<and>
        (fle (Finite 1) (vertex_min_dist b edge_distance (vertices m) k) \<longrightarrow>
           vz (vertices m') k = vz (vertices m) k)"
    if k: "3 * k + 2 < length (vertices m)" for k
  proof -
    from k have l: "3 * k < length (vertices m)" "3 * k + 1 < length (vertices m)" by simp_all
    have x: "vx (vertices m') k = vx (vertices m) k"
      unfolding vx_def nth[OF l(1)] by (rule smoothed_at_xy)
    have y: "vy (vertices m') k = vy (vertices m) k"
      unfolding vy_def nth[OF l(2)] by (rule smoothed_at_xy)
    have z: "vz (vertices m') k = vz (vertices m) k"
      if "fle (Finite 1) (vertex_min_dist b edge_distance (vertices m) k)"
      using fle_not_flt[OF that]
      unfolding vz_def nth[OF k] smoothed_at_z vertex_min_dist_def vx_def vy_def
      by simp
    from x y z show ?thesis by blast
  qed
  with b f smooth_loop_length[OF loop] show ?thesis by blast
qed

theorem smooth_edges_frame_witness:
  "smooth_edges terrain (Finite (2 / 10)) (Finite (1 / 2)) = Inr (Written terrain_smoothed) \<and>
   (\<exists>b. find_bounds (vertices terrain) = Inr b \<and>
      length (vertices terrain_smoothed) = length (vertices terrain) \<and>
      faces terrain_smoothed = faces terrain \<and>
      (\<forall>k. 3 * k + 2 < length (vertices terrain) \<longrightarrow>
         vx (vertices terrain_smoothed) k = vx (vertices terrain) k \<and>
         vy (vertices terrain_smoothed) k = vy (vertices terrain) k \<and>
         (fle (Finite 1) (vertex_min_dist b (Finite (2 / 10)) (vertices terrain) k) \<longrightarrow>
            vz (vertices terrain_smoothed) k = vz (vertices terrain) k)))"
proof -
  have w: "smooth_edges terrain (Finite (2 / 10)) (Finite (1 / 2)) = Inr (Written terrain_smoothed)"
    by code_simp
  from smooth_edges_frame[OF w] w show ?thesis by blast
qed
text \<open>
  What the loop writes in the edge zone, in the terms of the code: the bounds the bounds loop
  returns, the statistics computed from the interior list and the distance of the loop body.
\<close>

lemma smooth_loop_edge_zone:
  assumes "length (vertices m) mod 3 = 0" and "find_bounds (vertices m) = Inr b"
    and "interior_vertices b edge_distance (vertices m) \<noteq> []"
  shows "\<exists>m'. smooth_edges m edge_distance smooth_strength = Inr (Written m') \<and>
          (\<forall>k < length (vertices m) div 3.
             flt (vertex_min_dist b edge_distance (vertices m) k) (Finite 1) \<longrightarrow>
             vz (vertices m') k =
               (let st = interior_stats_of (interior_elevations b edge_distance (vertices m));
                    z = vz (vertices m) k
                in if fle z (Finite 0) \<or> flt z (fmul (min_interior st) (Finite (8 / 10)))
                      \<or> flt (fmul (max_interior st) (Finite (12 / 10))) z
                   then avg_elevation st
                   else fadd z (fmul (fmul (fsub (avg_elevation st) z) smooth_strength)
                          (fsub (Finite 1) (vertex_min_dist b edge_distance (vertices m) k)))))"
proof -
  let ?vs = "vertices m"
  let ?ex = "edge_width (min_x b) (max_x b) edge_distance"
  let ?ey = "edge_width (min_y b) (max_y b) edge_distance"
  let ?st = "interior_stats_of (interior_elevations b edge_distance ?vs)"
  from smooth_loop_ok[OF assms(1), of 0 b ?ex ?ey ?st smooth_strength]
  obtain vs' where loop: "smooth_loop b ?ex ?ey ?st smooth_strength ?vs 0 = Inr vs'" by auto
  have ne: "interior_elevations b edge_distance ?vs \<noteq> []"
    using assms(3) by (simp add: interior_elevations_def)
  have res: "smooth_edges m edge_distance smooth_strength = Inr (Written \<lparr>vertices = vs', faces = faces m\<rparr>)"
    by (simp add: smooth_edges_valid[OF assms(1,2)] ne loop)
  have "vz vs' k = edge_elevation ?st smooth_strength (vertex_min_dist b edge_distance ?vs k) (vz ?vs k)"
    if k: "k < length ?vs div 3" and md: "flt (vertex_min_dist b edge_distance ?vs k) (Finite 1)" for k
  proof -
    from k have "3 * k + 2 < length ?vs" by linarith
    from smooth_loop_nth[OF loop this] md show ?thesis
      unfolding vz_def smoothed_at_z vertex_min_dist_def vx_def vy_def by simp
  qed
  then show ?thesis
    unfolding res by (intro exI[of _ "\<lparr>vertices = vs', faces = faces m\<rparr>"]) (simp add: edge_elevation_def Let_def)
qed

subsection \<open>The code computes the notions of the specification\<close>

text \<open>A left fold of the least (greatest) of two reals is the least (greatest) of the list.\<close>

lemma foldl_min_Min: "foldl min (a::real) xs = Min (set (a # xs))"
proof (induction xs arbitrary: a)
  case Nil
  then show ?case by simp
next
  case (Cons x xs)
  have "foldl min a (x # xs) = Min (set (min a x # xs))" by (simp add: Cons.IH)
  also have "\<dots> = Min (set (a # x # xs))"
  proof (cases "xs = []")
    case True
    then show ?thesis by simp
  next
    case False
    then show ?thesis by (simp add: min.assoc)
  qed
  finally show ?case .
qed

lemma foldl_max_Max: "foldl max (a::real) xs = Max (set (a # xs))"
proof (induction xs arbitrary: a)
  case Nil
  then show ?case by simp
next
  case (Cons x xs)
  have "foldl max a (x # xs) = Max (set (max a x # xs))" by (simp add: Cons.IH)
  also have "\<dots> = Max (set (a # x # xs))"
  proof (cases "xs = []")
    case True
    then show ?thesis by simp
  next
    case False
    then show ?thesis by (simp add: max.assoc)
  qed
  finally show ?case .
qed

lemma py_min_from_inf: "xs \<noteq> [] \<Longrightarrow> foldl py_min2 PosInf (map Finite xs) = Finite (Min (set xs))"
  by (cases xs) (simp_all add: py_min2_def foldl_min_real foldl_min_Min del: set_simps)

lemma py_max_from_inf: "xs \<noteq> [] \<Longrightarrow> foldl py_max2 NegInf (map Finite xs) = Finite (Max (set xs))"
  by (cases xs) (simp_all add: py_max2_def foldl_max_real foldl_max_Max del: set_simps)

lemma py_min_list_Min: "zs \<noteq> [] \<Longrightarrow> py_min_list (map Finite zs) = Finite (Min (set zs))"
  by (cases zs) (simp_all add: py_min_list_def foldl_min_real foldl_min_Min del: set_simps)

lemma py_max_list_Max: "zs \<noteq> [] \<Longrightarrow> py_max_list (map Finite zs) = Finite (Max (set zs))"
  by (cases zs) (simp_all add: py_max_list_def foldl_max_real foldl_max_Max del: set_simps)

text \<open>The bounds loop returns the bounding box.\<close>

lemma find_bounds_box:
  assumes "length rs = 3 * n" and "0 < n"
  shows "find_bounds (map Finite rs) = Inr (box_of rs)"
proof -
  let ?vs = "map Finite rs"
  have len: "length ?vs = 3 * n" using assms(1) by simp
  have dv: "length rs div 3 = n" using assms(1) by simp
  have px: "map fst (map (\<lambda>k. (vx ?vs k, vy ?vs k)) [0..<n]) = map Finite (xs_of rs)"
    using assms(1) by (simp add: vx_def xs_of_def dv)
  have py: "map snd (map (\<lambda>k. (vx ?vs k, vy ?vs k)) [0..<n]) = map Finite (ys_of rs)"
    using assms(1) by (simp add: vy_def ys_of_def dv)
  have ne: "xs_of rs \<noteq> []" "ys_of rs \<noteq> []" using assms(2) by (simp_all add: xs_of_def ys_of_def dv)
  have bl: "bounds_loop ?vs (3 * 0) init_bounds =
              Inr (foldl bounds_step init_bounds (map (\<lambda>k. (vx ?vs k, vy ?vs k)) [0..<n]))"
    by (rule bounds_loop_eq[OF len]) simp
  have fb: "foldl bounds_step init_bounds (map (\<lambda>k. (vx ?vs k, vy ?vs k)) [0..<n]) = box_of rs"
    by (simp only: foldl_bounds_step px py init_bounds_def bounds.select_convs box_of_def
          py_min_from_inf[OF ne(1)] py_max_from_inf[OF ne(1)]
          py_min_from_inf[OF ne(2)] py_max_from_inf[OF ne(2)])
  show ?thesis
    unfolding find_bounds_def using bl by (simp only: fb mult_0_right)
qed

lemma edge_width_box:
  "edge_width (min_x (box_of rs)) (max_x (box_of rs)) d = edge_x_of rs d"
  "edge_width (min_y (box_of rs)) (max_y (box_of rs)) d = edge_y_of rs d"
  by (simp_all only: edge_width_def edge_x_of_def edge_y_of_def)

text \<open>The interior list of the code holds the interior vertices, in order.\<close>

lemma interior_vertices_box:
  assumes "length rs = 3 * n"
  shows "interior_vertices (box_of rs) d (map Finite rs) = filter (interior_at rs d) [0..<n]"
proof -
  have dv: "length (map Finite rs) div 3 = n" using assms by simp
  have "is_interior (box_of rs) (edge_x_of rs d) (edge_y_of rs d)
          (vx (map Finite rs) k) (vy (map Finite rs) k) (vz (map Finite rs) k) = interior_at rs d k"
    if "k < n" for k
  proof -
    from that assms have "3 * k + 2 < length rs" by linarith
    then show ?thesis
      by (simp add: is_interior_def interior_at_def vx_def vy_def vz_def)
  qed
  then have "filter (\<lambda>k. is_interior (box_of rs) (edge_x_of rs d) (edge_y_of rs d)
          (vx (map Finite rs) k) (vy (map Finite rs) k) (vz (map Finite rs) k)) [0..<n]
        = filter (interior_at rs d) [0..<n]"
    by (intro filter_cong_upt)
  then show ?thesis
    by (simp only: interior_vertices_def dv edge_width_box)
qed

lemma interior_elevations_box:
  assumes "length rs = 3 * n"
  shows "interior_elevations (box_of rs) d (map Finite rs) = map Finite (interior_zs rs d)"
proof -
  have dv: "length rs div 3 = n" using assms by simp
  have "map (vz (map Finite rs)) (filter (interior_at rs d) [0..<n]) =
        map Finite (map (\<lambda>k. rs ! (3 * k + 2)) (filter (interior_at rs d) [0..<n]))"
    using assms by (auto simp: vz_def)
  then show ?thesis
    by (simp only: interior_elevations_def interior_vertices_box[OF assms] interior_zs_def dv)
qed

text \<open>
  The statistics of the code are the mean, the least and the greatest of the interior
  elevations.
\<close>

lemma interior_stats_real:
  assumes "zs \<noteq> []"
  shows "interior_stats_of (map Finite zs) =
         \<lparr>avg_elevation = mean_of zs, min_interior = Finite (Min (set zs)),
          max_interior = Finite (Max (set zs))\<rparr>"
  by (simp add: interior_stats_of_def py_sum_def mean_of_def
        py_min_list_Min[OF assms] py_max_list_Max[OF assms])

text \<open>
  The distance of the loop body is the least of the four normalised side distances: on finite
  coordinates each of them is a finite number, so that the order in which Python's
  \<^verbatim>\<open>min\<close> compares them does not matter.
\<close>

lemma side_dist_finite: "\<exists>r. side_dist e (Finite a) = Finite r"
  by (cases e) (auto simp: side_dist_def)

lemma py_min2_Finite: "py_min2 (Finite a) (Finite b) = Finite (min a b)"
  by (simp add: py_min2_def min_def)

lemma least2_Finite: "least2 (Finite a) (Finite b) = Finite (min a b)"
  by (simp add: least2_def min_def)

lemma min4_least:
  assumes "\<exists>r. a = Finite r" "\<exists>r. b = Finite r" "\<exists>r. c = Finite r" "\<exists>r. e = Finite r"
  shows "py_min2 (py_min2 (py_min2 a b) c) e = least2 a (least2 b (least2 c e))"
proof -
  from assms obtain ra rb rc re where "a = Finite ra" "b = Finite rb" "c = Finite rc" "e = Finite re"
    by blast
  then show ?thesis by (simp add: py_min2_Finite least2_Finite min.assoc)
qed

lemma vertex_min_dist_box:
  assumes "length rs = 3 * n" and "k < n"
  shows "vertex_min_dist (box_of rs) d (map Finite rs) k = edge_dist rs d k"
proof -
  from assms have l: "3 * k + 1 < length rs" by linarith
  then have x: "vx (map Finite rs) k = Finite (rs ! (3 * k))"
    and y: "vy (map Finite rs) k = Finite (rs ! (3 * k + 1))"
    by (simp_all add: vx_def vy_def)
  let ?B = "box_of rs" and ?ex = "edge_x_of rs d" and ?ey = "edge_y_of rs d"
  have f: "\<exists>r. fsub (Finite (rs ! (3 * k))) (min_x ?B) = Finite r"
    "\<exists>r. fsub (max_x ?B) (Finite (rs ! (3 * k))) = Finite r"
    "\<exists>r. fsub (Finite (rs ! (3 * k + 1))) (min_y ?B) = Finite r"
    "\<exists>r. fsub (max_y ?B) (Finite (rs ! (3 * k + 1))) = Finite r"
    by (simp_all add: box_of_def fsub_def)
  have s: "\<exists>r. side_dist ?ex (fsub (Finite (rs ! (3 * k))) (min_x ?B)) = Finite r"
    "\<exists>r. side_dist ?ex (fsub (max_x ?B) (Finite (rs ! (3 * k)))) = Finite r"
    "\<exists>r. side_dist ?ey (fsub (Finite (rs ! (3 * k + 1))) (min_y ?B)) = Finite r"
    "\<exists>r. side_dist ?ey (fsub (max_y ?B) (Finite (rs ! (3 * k + 1)))) = Finite r"
    using f side_dist_finite by metis+
  have "vertex_min_dist ?B d (map Finite rs) k =
        py_min2 (py_min2 (py_min2
          (side_dist ?ex (fsub (Finite (rs ! (3 * k))) (min_x ?B)))
          (side_dist ?ex (fsub (max_x ?B) (Finite (rs ! (3 * k))))))
          (side_dist ?ey (fsub (Finite (rs ! (3 * k + 1))) (min_y ?B))))
          (side_dist ?ey (fsub (max_y ?B) (Finite (rs ! (3 * k + 1)))))"
    by (simp only: vertex_min_dist_def min_dist_def Let_def edge_width_box x y side_dist_def)
  also have "\<dots> = edge_dist rs d k"
    unfolding edge_dist_def by (rule min4_least[OF s])
  finally show ?thesis .
qed

text \<open>
  In the exact arithmetic of this model the mean is the sum of the elevations over their
  number. (Python's \<^verbatim>\<open>sum\<close> rounds, which the model leaves out; the property below is
  stated with the float sum and does not use this lemma.)
\<close>

lemma foldl_fadd_real: "foldl fadd (Finite a) (map Finite zs) = Finite (a + sum_list zs)"
  by (induction zs arbitrary: a) (simp_all add: algebra_simps)

lemma mean_of_exact: "zs \<noteq> [] \<Longrightarrow> mean_of zs = Finite (sum_list zs / real (length zs))"
  by (simp add: mean_of_def foldl_fadd_real)

text \<open>
  On the example terrain with an edge fraction of 0.2 the interior vertices are the two at
  (5, 5) and (4, 4); their mean elevation is 18; the vertex at (1, 5) lies half way into the
  edge zone and the one at (5, 5) outside it.
\<close>

lemma terrain_interior_zs: "interior_zs terrain_coords (Finite (2 / 10)) = [20, 16]"
  by code_simp

lemma terrain_edge_values:
  "mean_of [20, 16] = Finite 18 \<and>
   edge_dist terrain_coords (Finite (2 / 10)) 9 = Finite (1 / 2) \<and>
   edge_dist terrain_coords (Finite (2 / 10)) 4 = Finite (5 / 2)"
  by code_simp

text \<open>
  C9. On a mesh of finite coordinates in whole vertex triples with at least one interior
  vertex, \<^verbatim>\<open>smooth_edges\<close> writes a mesh in which every vertex of the edge zone
  (normalised minimum edge distance minDist below 1) has this elevation: avgElevation if its
  elevation z is non-positive, below 0.8 times minInterior or above 1.2 times maxInterior;
  and otherwise z + (avgElevation - z) * smoothStrength * (1 - minDist). Here avgElevation is
  the mean, minInterior the least and maxInterior the greatest of the elevations of the
  interior vertices (those strictly inside the bounding box inset by the edge margins, with an
  elevation above 0), and minDist is the least of the four normalised side distances.
\<close>

theorem edge_zone_elevation:
  assumes fin: "vertices m = map Finite rs" and len: "length rs mod 3 = 0"
    and ne: "interior_zs rs edge_distance \<noteq> []"
  shows "\<exists>m'. smooth_edges m edge_distance smooth_strength = Inr (Written m') \<and>
          (\<forall>k < length rs div 3.
             flt (edge_dist rs edge_distance k) (Finite 1) \<longrightarrow>
             vertices m' ! (3 * k + 2) =
               (let zs = interior_zs rs edge_distance;
                    avgElevation = mean_of zs;
                    minInterior = Finite (Min (set zs));
                    maxInterior = Finite (Max (set zs));
                    minDist = edge_dist rs edge_distance k;
                    z = Finite (rs ! (3 * k + 2))
                in if fle z (Finite 0) \<or> flt z (fmul minInterior (Finite (8 / 10)))
                      \<or> flt (fmul maxInterior (Finite (12 / 10))) z
                   then avgElevation
                   else fadd z (fmul (fmul (fsub avgElevation z) smooth_strength)
                          (fsub (Finite 1) minDist))))"
proof -
  from len obtain n where n: "length rs = 3 * n" by (blast dest: mod3_ex)
  then have dv: "length rs div 3 = n" by simp
  from ne have "filter (interior_at rs edge_distance) [0..<n] \<noteq> []"
    by (simp add: interior_zs_def dv)
  then have pos: "0 < n" by (cases n) auto
  have vl: "length (vertices m) mod 3 = 0" using len by (simp add: fin)
  have b: "find_bounds (vertices m) = Inr (box_of rs)"
    unfolding fin by (rule find_bounds_box[OF n pos])
  have ie: "interior_elevations (box_of rs) edge_distance (vertices m) =
            map Finite (interior_zs rs edge_distance)"
    unfolding fin by (rule interior_elevations_box[OF n])
  have iv: "interior_vertices (box_of rs) edge_distance (vertices m) \<noteq> []"
    using ne ie by (auto simp: interior_elevations_def)
  from smooth_loop_edge_zone[OF vl b iv, of smooth_strength]
  obtain m' where w: "smooth_edges m edge_distance smooth_strength = Inr (Written m')"
    and z: "\<And>k. k < length (vertices m) div 3 \<Longrightarrow>
             flt (vertex_min_dist (box_of rs) edge_distance (vertices m) k) (Finite 1) \<Longrightarrow>
             vz (vertices m') k =
               (let st = interior_stats_of (interior_elevations (box_of rs) edge_distance (vertices m));
                    z = vz (vertices m) k
                in if fle z (Finite 0) \<or> flt z (fmul (min_interior st) (Finite (8 / 10)))
                      \<or> flt (fmul (max_interior st) (Finite (12 / 10))) z
                   then avg_elevation st
                   else fadd z (fmul (fmul (fsub (avg_elevation st) z) smooth_strength)
                          (fsub (Finite 1)
                             (vertex_min_dist (box_of rs) edge_distance (vertices m) k))))"
    by blast
  have goal: "vertices m' ! (3 * k + 2) =
               (let zs = interior_zs rs edge_distance;
                    avgElevation = mean_of zs;
                    minInterior = Finite (Min (set zs));
                    maxInterior = Finite (Max (set zs));
                    minDist = edge_dist rs edge_distance k;
                    z = Finite (rs ! (3 * k + 2))
                in if fle z (Finite 0) \<or> flt z (fmul minInterior (Finite (8 / 10)))
                      \<or> flt (fmul maxInterior (Finite (12 / 10))) z
                   then avgElevation
                   else fadd z (fmul (fmul (fsub avgElevation z) smooth_strength)
                          (fsub (Finite 1) minDist)))"
    if k: "k < n" and ez: "flt (edge_dist rs edge_distance k) (Finite 1)" for k
  proof -
    have md: "vertex_min_dist (box_of rs) edge_distance (vertices m) k = edge_dist rs edge_distance k"
      unfolding fin by (rule vertex_min_dist_box[OF n k])
    from k n have "3 * k + 2 < length rs" by linarith
    then have vzk: "vz (vertices m) k = Finite (rs ! (3 * k + 2))"
      by (simp add: vz_def fin)
    have kd: "k < length (vertices m) div 3" using k dv by (simp add: fin)
    have ezc: "flt (vertex_min_dist (box_of rs) edge_distance (vertices m) k) (Finite 1)"
      using ez by (simp only: md)
    have "vz (vertices m') k = vertices m' ! (3 * k + 2)" by (simp only: vz_def)
    with z[OF kd ezc] show ?thesis
      by (simp only: ie interior_stats_real[OF ne] md vzk Let_def interior_stats.select_convs)
  qed
  from w goal show ?thesis unfolding dv by blast
qed

theorem edge_zone_elevation_witness:
  "vertices terrain = map Finite terrain_coords \<and>
   length terrain_coords mod 3 = 0 \<and>
   interior_zs terrain_coords (Finite (2 / 10)) \<noteq> [] \<and>
   (\<exists>m'. smooth_edges terrain (Finite (2 / 10)) (Finite (1 / 2)) = Inr (Written m') \<and>
      (\<forall>k < length terrain_coords div 3.
         flt (edge_dist terrain_coords (Finite (2 / 10)) k) (Finite 1) \<longrightarrow>
         vertices m' ! (3 * k + 2) =
           (let zs = interior_zs terrain_coords (Finite (2 / 10));
                avgElevation = mean_of zs;
                minInterior = Finite (Min (set zs));
                maxInterior = Finite (Max (set zs));
                minDist = edge_dist terrain_coords (Finite (2 / 10)) k;
                z = Finite (terrain_coords ! (3 * k + 2))
            in if fle z (Finite 0) \<or> flt z (fmul minInterior (Finite (8 / 10)))
                  \<or> flt (fmul maxInterior (Finite (12 / 10))) z
               then avgElevation
               else fadd z (fmul (fmul (fsub avgElevation z) (Finite (1 / 2)))
                      (fsub (Finite 1) minDist)))))"
proof -
  have f: "vertices terrain = map Finite terrain_coords"
    by (simp add: terrain_def terrain_coords_def)
  have l: "length terrain_coords mod 3 = 0"
    by (simp add: terrain_coords_def)
  have i: "interior_zs terrain_coords (Finite (2 / 10)) \<noteq> []"
    by code_simp
  from edge_zone_elevation[OF f l i] f l i show ?thesis by blast
qed
section \<open>Properties of obj\_to\_json\<close>

lemma three_length: "three conv parts = Inr r \<Longrightarrow> length r = 3"
  by (auto simp: three_def split: option.splits)

lemma parse_lines_faces_mod3:
  "parse_lines to_float to_int ls vs fs = Inr (vs', fs') \<Longrightarrow> length fs mod 3 = 0
     \<Longrightarrow> length fs' mod 3 = 0"
proof (induction ls arbitrary: vs fs)
  case Nil
  then show ?case by simp
next
  case (Cons l ls)
  show ?case
    using Cons.prems Cons.IH
    by (auto simp: Let_def split: if_splits sum.splits dest!: three_length)
qed

lemma parse_obj_faces_mod3:
  "parse_obj to_float to_int obj_text = Inr (vs, fs) \<Longrightarrow> length fs mod 3 = 0"
  unfolding parse_obj_def by (erule parse_lines_faces_mod3) simp

lemma mod3_div3_eq: "length xs mod 3 = 0 \<Longrightarrow> length ys mod 3 = 0 \<Longrightarrow>
   length xs div 3 = length ys div 3 \<Longrightarrow> length xs = length ys"
  by presburger

lemma obj_to_json_InrD:
  assumes "obj_to_json to_float to_int obj_text original stdin = Inr out"
    and "parse_obj to_float to_int obj_text = Inr (vs, fs)"
  obtains fcs stdin1 where "resolve_faces vs fs original stdin = Inr (fcs, stdin1)"
    and "out = \<lparr>vertices = vs, faces = fcs\<rparr>"
  using assms unfolding obj_to_json_def
  by (auto split: sum.splits prod.splits)

text \<open>
  C3. Let the OBJ text parse to the vertices \<open>vs\<close> and the faces \<open>faces_from_obj\<close>, and
  let the reference have whole face triples. If the parsed vertex count equals the
  reference's, the face list chosen is the reference's, the parsed faces are dropped, and no
  confirmation is asked. Otherwise, if the parsed face count equals the reference's, the
  face list chosen is the one parsed from the OBJ, again with no confirmation. Every mesh
  the import writes has the parsed vertices and the face list chosen this way.
\<close>

theorem import_face_resolution:
  assumes "parse_obj to_float to_int obj_text = Inr (vs, faces_from_obj)"
    and "length (faces original) mod 3 = 0"
  shows "(length vs div 3 = length (vertices original) div 3 \<longrightarrow>
            resolve_faces vs faces_from_obj original stdin = Inr (faces original, stdin)) \<and>
         (length vs div 3 \<noteq> length (vertices original) div 3 \<and>
          length faces_from_obj div 3 = length (faces original) div 3 \<longrightarrow>
            resolve_faces vs faces_from_obj original stdin = Inr (faces_from_obj, stdin)) \<and>
         (\<forall>out. obj_to_json to_float to_int obj_text original stdin = Inr out \<longrightarrow>
            vertices out = vs \<and>
            (length vs div 3 = length (vertices original) div 3 \<longrightarrow> faces out = faces original) \<and>
            (length vs div 3 \<noteq> length (vertices original) div 3 \<longrightarrow> faces out = faces_from_obj))"
proof (intro conjI allI impI)
  assume "length vs div 3 = length (vertices original) div 3"
  then show "resolve_faces vs faces_from_obj original stdin = Inr (faces original, stdin)"
    by (simp add: resolve_faces_def)
next
  assume a: "length vs div 3 \<noteq> length (vertices original) div 3 \<and>
             length faces_from_obj div 3 = length (faces original) div 3"
  have "length faces_from_obj = length (faces original)"
    using mod3_div3_eq[OF parse_obj_faces_mod3[OF assms(1)] assms(2)] a by blast
  with a show "resolve_faces vs faces_from_obj original stdin = Inr (faces_from_obj, stdin)"
    by (simp add: resolve_faces_def)
next
  fix out assume o: "obj_to_json to_float to_int obj_text original stdin = Inr out"
  from o assms(1) obtain fcs stdin1
    where r: "resolve_faces vs faces_from_obj original stdin = Inr (fcs, stdin1)"
      and out: "out = \<lparr>vertices = vs, faces = fcs\<rparr>"
    by (rule obj_to_json_InrD)
  show "vertices out = vs" by (simp add: out)
  show "faces out = faces original" if "length vs div 3 = length (vertices original) div 3"
    using r that by (simp add: resolve_faces_def out)
  show "faces out = faces_from_obj" if "length vs div 3 \<noteq> length (vertices original) div 3"
    using r that by (auto simp: resolve_faces_def out split: if_splits sum.splits)
qed

theorem import_face_resolution_witness:
  "parse_obj dec_float dec_int edited_obj = Inr (edited_vs, edited_fs) \<and>
   length (faces unit_square) mod 3 = 0 \<and>
   length edited_vs div 3 \<noteq> length (vertices unit_square) div 3 \<and>
   length edited_fs div 3 = length (faces unit_square) div 3 \<and>
   resolve_faces edited_vs edited_fs unit_square [] = Inr (edited_fs, []) \<and>
   obj_to_json dec_float dec_int edited_obj unit_square [] =
     Inr \<lparr>vertices = edited_vs, faces = edited_fs\<rparr>"
proof -
  have p: "parse_obj dec_float dec_int edited_obj = Inr (edited_vs, edited_fs)"
    by code_simp
  have v: "length (faces unit_square) mod 3 = 0"
    by (simp add: unit_square_def)
  have c: "length edited_vs div 3 \<noteq> length (vertices unit_square) div 3 \<and>
           length edited_fs div 3 = length (faces unit_square) div 3"
    by (simp add: unit_square_def edited_vs_def edited_fs_def)
  have o: "obj_to_json dec_float dec_int edited_obj unit_square [] =
             Inr \<lparr>vertices = edited_vs, faces = edited_fs\<rparr>"
    by code_simp
  from import_face_resolution[OF p v, of "[]"] c
  have "resolve_faces edited_vs edited_fs unit_square [] = Inr (edited_fs, [])" by blast
  with p v c o show ?thesis by blast
qed

text \<open>
  The other branch on an example: four vertices as in the reference, so the single face
  line of the OBJ is dropped and the two faces of the reference are written.
\<close>

lemma import_same_count_example:
  "obj_to_json dec_float dec_int same_count_obj unit_square [] =
     Inr \<lparr>vertices = map Finite [0, 0, 3,  1, 0, 3,  0, 1, 3,  1, 1, 3],
          faces = [0, 1, 2, 1, 3, 2]\<rparr>"
  by code_simp

text \<open>
  C4. When the parsed vertex count differs from the reference's and the parsed face count
  differs from the reference's, the import reports the mismatch and asks; unless the answer
  is \<^verbatim>\<open>y\<close> or \<^verbatim>\<open>Y\<close> it exits with status 1 (the default answer, an empty line,
  included), and with no answer to read it fails too. A mesh is written in this state only
  after that explicit confirmation.
\<close>

theorem topology_mismatch_refused:
  assumes "parse_obj to_float to_int obj_text = Inr (vs, faces_from_obj)"
    and "length vs div 3 \<noteq> length (vertices original) div 3"
    and "length faces_from_obj div 3 \<noteq> length (faces original) div 3"
  shows "(stdin = [] \<longrightarrow> obj_to_json to_float to_int obj_text original stdin = Inl EOFError) \<and>
         (\<forall>response rest. stdin = response # rest \<and> py_lower response \<noteq> ''y'' \<longrightarrow>
            obj_to_json to_float to_int obj_text original stdin = Inl SystemExit) \<and>
         (\<forall>out. obj_to_json to_float to_int obj_text original stdin = Inr out \<longrightarrow>
            (\<exists>response rest. stdin = response # rest \<and> py_lower response = ''y''))"
proof -
  from assms(3) have ne: "length faces_from_obj \<noteq> length (faces original)" by auto
  have r: "resolve_faces vs faces_from_obj original s =
           (case confirm s of Inl e \<Rightarrow> Inl e | Inr rest \<Rightarrow> Inr (faces_from_obj, rest))" for s
    using assms(2) ne by (simp add: resolve_faces_def)
  show ?thesis
    by (cases stdin) (auto simp: obj_to_json_def assms(1) r confirm_def split: sum.splits)
qed

theorem topology_mismatch_refused_witness:
  "parse_obj dec_float dec_int cut_obj = Inr (cut_vs, [0, 1, 2]) \<and>
   length cut_vs div 3 \<noteq> length (vertices unit_square) div 3 \<and>
   length [0, 1, 2 :: int] div 3 \<noteq> length (faces unit_square) div 3 \<and>
   obj_to_json dec_float dec_int cut_obj unit_square default_answer = Inl SystemExit"
proof -
  have p: "parse_obj dec_float dec_int cut_obj = Inr (cut_vs, [0, 1, 2])"
    by code_simp
  have v: "length cut_vs div 3 \<noteq> length (vertices unit_square) div 3"
    by (simp add: unit_square_def cut_vs_def)
  have f: "length [0, 1, 2 :: int] div 3 \<noteq> length (faces unit_square) div 3"
    by (simp add: unit_square_def)
  have "default_answer = [] # [] \<and> py_lower [] \<noteq> ''y''"
    by (simp add: py_lower_def default_answer_def)
  with topology_mismatch_refused[OF p v f, of default_answer]
  have "obj_to_json dec_float dec_int cut_obj unit_square default_answer = Inl SystemExit"
    by blast
  with p v f show ?thesis by blast
qed

section \<open>Lines and parts\<close>

lemma CR_neq_LF: "CR \<noteq> LF"
  by (simp add: CR_def LF_def)

lemma isspace_LF: "py_isspace LF"
  by (simp add: py_isspace_def LF_def)

lemma isspace_CR: "py_isspace CR"
  by (simp add: py_isspace_def CR_def)

lemma isspace_space: "py_isspace CHR '' ''"
  by (simp add: py_isspace_def)

lemma token_no_break: "token s \<Longrightarrow> no_break s"
  using isspace_LF isspace_CR by (auto simp: token_def no_break_def)

lemma no_break_append [simp]: "no_break (a @ b) = (no_break a \<and> no_break b)"
  by (auto simp: no_break_def)

lemma no_break_Cons [simp]: "no_break (c # s) = (c \<noteq> CR \<and> c \<noteq> LF \<and> no_break s)"
  by (auto simp: no_break_def)

lemma no_break_Nil [simp]: "no_break []"
  by (simp add: no_break_def)

lemma readlines_line:
  "no_break l \<Longrightarrow> readlines acc (l @ LF # rest) = (acc @ l @ [LF]) # readlines [] rest"
proof (induction l arbitrary: acc)
  case Nil
  show ?case using CR_neq_LF by (cases rest) auto
next
  case (Cons c l)
  obtain d cs where t: "l @ LF # rest = d # cs" by (cases "l @ LF # rest") auto
  from Cons.prems have c: "c \<noteq> CR" "c \<noteq> LF" and l: "no_break l" by simp_all
  have "readlines acc ((c # l) @ LF # rest) = readlines (acc @ [c]) (l @ LF # rest)"
    using c by (simp add: t)
  also have "\<dots> = ((acc @ [c]) @ l @ [LF]) # readlines [] rest"
    by (rule Cons.IH[OF l])
  finally show ?case by simp
qed

lemma unlines_Nil [simp]: "unlines [] = []"
  by (simp add: unlines_def)

lemma unlines_Cons [simp]: "unlines (l # ls) = l @ LF # unlines ls"
  by (simp add: unlines_def)

lemma unlines_append [simp]: "unlines (a @ b) = unlines a @ unlines b"
  by (simp add: unlines_def)

lemma file_lines_unlines:
  "\<forall>l \<in> set ls. no_break l \<Longrightarrow> file_lines (unlines ls) = map (\<lambda>l. l @ [LF]) ls"
proof (induction ls)
  case Nil
  then show ?case by (simp add: file_lines_def)
next
  case (Cons l ls)
  then show ?case
    by (simp add: file_lines_def readlines_line)
qed

lemma dropWhile_snoc_keep: "\<not> P c \<Longrightarrow> \<exists>w. dropWhile P (ys @ [c]) = w @ [c]"
  by (induction ys) auto

lemma strip_keeps_head:
  assumes "\<not> py_isspace c"
  shows "\<exists>u. py_strip (c # t) = c # u"
proof -
  from dropWhile_snoc_keep[of py_isspace c "rev t", OF assms]
  obtain w where "dropWhile py_isspace (rev t @ [c]) = w @ [c]" by blast
  then show ?thesis using assms by (simp add: py_strip_def)
qed

lemma strip_line:
  assumes "s \<noteq> []" and "\<not> py_isspace (hd s)" and "\<not> py_isspace (last s)"
  shows "py_strip (s @ [LF]) = s"
proof -
  from assms(1,2) have a: "dropWhile py_isspace (s @ [LF]) = s @ [LF]"
    by (cases s) auto
  from assms(1,3) have b: "dropWhile py_isspace (rev s) = rev s"
    by (cases s rule: rev_cases) auto
  show ?thesis
    by (simp add: py_strip_def a b isspace_LF)
qed

lemma strip_blank: "py_strip [LF] = []"
  by (simp add: py_strip_def isspace_LF)

lemma split_ws_token:
  "\<forall>c \<in> set t. \<not> py_isspace c \<Longrightarrow> split_ws w (t @ rest) = split_ws (w @ t) rest"
  by (induction t arbitrary: w) auto

lemma split_four:
  assumes "token k" "token a" "token b" "token c"
  shows "py_split (k @ '' '' @ a @ '' '' @ b @ '' '' @ c) = [k, a, b, c]"
proof -
  have tk: "split_ws [] (t @ rest) = split_ws t rest" if "token t" for t rest
    using split_ws_token[of t "[]" rest] that by (simp add: token_def)
  have e: "split_ws [] c = [c]"
    using tk[OF assms(4), of "[]"] assms(4) by (simp add: token_def)
  have ne: "k \<noteq> []" "a \<noteq> []" "b \<noteq> []" using assms by (simp_all add: token_def)
  show ?thesis
    unfolding py_split_def
    by (simp add: tk[OF assms(1)] tk[OF assms(2)] tk[OF assms(3)] isspace_space ne e)
qed

section \<open>The text json\_to\_obj writes\<close>

lemma obj_header_unlines: "obj_header name nv nf = unlines (header_lines name nv nf)"
  by (simp add: obj_header_def header_lines_def)

lemma of_char_digit_char: "d < 10 \<Longrightarrow> (of_char (digit_char d) :: nat) = 48 + d"
  by (simp add: digit_char_def)

lemma str_nat_digits: "c \<in> set (str_nat n) \<Longrightarrow> 48 \<le> (of_char c :: nat) \<and> (of_char c :: nat) \<le> 57"
proof (induction n arbitrary: c rule: str_nat.induct)
  case (1 n)
  show ?case
  proof (cases "n < 10")
    case True
    with "1.prems" have "c = digit_char n" by (subst (asm) str_nat.simps) simp
    with True show ?thesis by (simp add: of_char_digit_char)
  next
    case False
    with "1.prems" have "c \<in> set (str_nat (n div 10)) \<or> c = digit_char (n mod 10)"
      by (subst (asm) str_nat.simps) auto
    then show ?thesis
    proof
      assume "c \<in> set (str_nat (n div 10))"
      with "1.IH"[OF False] show ?thesis by blast
    next
      assume "c = digit_char (n mod 10)"
      then show ?thesis by (simp add: of_char_digit_char)
    qed
  qed
qed

lemma str_nat_nonempty: "str_nat n \<noteq> []"
  by (subst str_nat.simps) simp

lemma str_int_chars:
  "c \<in> set (py_str_int i) \<Longrightarrow> c = CHR ''-'' \<or> (48 \<le> (of_char c :: nat) \<and> (of_char c :: nat) \<le> 57)"
  by (auto simp: py_str_int_def dest: str_nat_digits split: if_splits)

lemma str_int_nonempty: "py_str_int i \<noteq> []"
  by (simp add: py_str_int_def str_nat_nonempty)

lemma token_str_int: "token (py_str_int i)"
  unfolding token_def
proof (intro conjI ballI)
  show "py_str_int i \<noteq> []" by (rule str_int_nonempty)
  fix c assume "c \<in> set (py_str_int i)"
  from str_int_chars[OF this] show "\<not> py_isspace c"
    by (auto simp: py_isspace_def)
qed

lemma before_slash_str_int: "before_slash (py_str_int i) = py_str_int i"
  unfolding before_slash_def takeWhile_eq_all_conv
proof
  fix c assume "c \<in> set (py_str_int i)"
  from str_int_chars[OF this] show "c \<noteq> CHR ''/''" by auto
qed

lemma vertex_lines_step:
  "i + 2 < length vs \<Longrightarrow>
   vertex_lines fmt vs i out =
     vertex_lines fmt vs (i + 3)
       (out @ ''v '' @ fmt (vs ! i) @ '' '' @ fmt (vs ! (i + 1)) @ '' '' @ fmt (vs ! (i + 2)) @ [LF])"
  by (subst vertex_lines.simps) simp

lemma vertex_lines_stop: "length vs \<le> i \<Longrightarrow> vertex_lines fmt vs i out = Inr out"
  by (subst vertex_lines.simps) simp

lemma vertex_lines_eq:
  "length vs = 3 * n \<Longrightarrow> j \<le> n \<Longrightarrow>
   vertex_lines fmt vs (3 * j) out = Inr (out @ unlines (map (vline fmt vs) [j..<n]))"
proof (induction "n - j" arbitrary: j out)
  case 0
  then have "j = n" by simp
  with 0 show ?case by (simp add: vertex_lines_stop)
next
  case (Suc d)
  then have lt: "j < n" by simp
  with Suc.prems have a: "3 * j + 2 < length vs" by linarith
  have d: "d = n - Suc j" using Suc.hyps(2) by simp
  have s: "3 * j + 3 = 3 * Suc j" by simp
  have up: "[j..<n] = j # [Suc j..<n]" using lt by (simp add: upt_conv_Cons)
  have le: "Suc j \<le> n" using lt by simp
  show ?case
    unfolding vertex_lines_step[OF a] s Suc.hyps(1)[OF d Suc.prems(1) le] up
    by (simp add: vline_def vx_def vy_def vz_def)
qed

lemma face_lines_step:
  "i + 2 < length fs \<Longrightarrow>
   face_lines fs i out =
     face_lines fs (i + 3)
       (out @ ''f '' @ py_str_int (fs ! i + 1) @ '' '' @ py_str_int (fs ! (i + 1) + 1)
          @ '' '' @ py_str_int (fs ! (i + 2) + 1) @ [LF])"
  by (subst face_lines.simps) simp

lemma face_lines_stop: "length fs \<le> i \<Longrightarrow> face_lines fs i out = Inr out"
  by (subst face_lines.simps) simp

lemma face_lines_eq:
  "length fs = 3 * n \<Longrightarrow> j \<le> n \<Longrightarrow>
   face_lines fs (3 * j) out = Inr (out @ unlines (map (fline fs) [j..<n]))"
proof (induction "n - j" arbitrary: j out)
  case 0
  then have "j = n" by simp
  with 0 show ?case by (simp add: face_lines_stop)
next
  case (Suc d)
  then have lt: "j < n" by simp
  with Suc.prems have a: "3 * j + 2 < length fs" by linarith
  have d: "d = n - Suc j" using Suc.hyps(2) by simp
  have s: "3 * j + 3 = 3 * Suc j" by simp
  have up: "[j..<n] = j # [Suc j..<n]" using lt by (simp add: upt_conv_Cons)
  have le: "Suc j \<le> n" using lt by simp
  show ?case
    unfolding face_lines_step[OF a] s Suc.hyps(1)[OF d Suc.prems(1) le] up
    by (simp add: fline_def)
qed

lemma extent_loop_ok:
  "length vs mod 3 = 0 \<Longrightarrow> i mod 3 = 0 \<Longrightarrow> \<exists>r. extent_loop vs i b zr = Inr r"
proof (induction vs i b zr rule: extent_loop.induct)
  case (1 vs i b zr)
  show ?case
  proof (cases "i < length vs")
    case True
    with "1.prems" have lt: "i + 2 < length vs" by presburger
    from "1.prems" have "(i + 3) mod 3 = 0" by presburger
    with "1.IH"[OF True lt "1.prems"(1)] True lt show ?thesis
      by (subst extent_loop.simps) simp
  next
    case False
    then show ?thesis by (subst extent_loop.simps) simp
  qed
qed

lemma json_to_obj_text:
  assumes "length (vertices m) = 3 * n" and "length (faces m) = 3 * f" and "vertices m \<noteq> []"
  shows "json_to_obj fmt name m =
         Inr (unlines (header_lines name n f @ map (vline fmt (vertices m)) [0..<n] @ [[]]
                @ map (fline (faces m)) [0..<f]))"
proof -
  from assms(1) have "length (vertices m) mod 3 = 0" by simp
  from extent_loop_ok[OF this, of 0 init_bounds "(PosInf, NegInf)"]
  obtain r where r: "extent_loop (vertices m) 0 init_bounds (PosInf, NegInf) = Inr r" by auto
  have v: "vertex_lines fmt (vertices m) 0 out =
             Inr (out @ unlines (map (vline fmt (vertices m)) [0..<n]))" for out
    using vertex_lines_eq[OF assms(1), of 0 fmt] by simp
  have fl: "face_lines (faces m) 0 out = Inr (out @ unlines (map (fline (faces m)) [0..<f]))" for out
    using face_lines_eq[OF assms(2), of 0] by simp
  show ?thesis
    by (simp add: json_to_obj_def assms r v fl obj_header_unlines)
qed

section \<open>Reading that text back\<close>

lemma parse_comment:
  "parse_lines tf ti ((CHR ''#'' # t) # rest) vs fs = parse_lines tf ti rest vs fs"
proof -
  have "\<not> py_isspace CHR ''#''" by (simp add: py_isspace_def)
  from strip_keeps_head[OF this, of t] obtain u where u: "py_strip (CHR ''#'' # t) = CHR ''#'' # u"
    by blast
  show ?thesis by (simp add: u py_startswith_def)
qed

lemma parse_blank: "parse_lines tf ti ([LF] # rest) vs fs = parse_lines tf ti rest vs fs"
  by (simp add: strip_blank py_startswith_def)

lemma token_last: "token s \<Longrightarrow> \<not> py_isspace (last s)"
  by (simp add: token_def)

lemma token_v: "token ''v''" and token_f: "token ''f''"
  by (simp_all add: token_def py_isspace_def)

lemma three_ok:
  "conv a = Some x \<Longrightarrow> conv b = Some y \<Longrightarrow> conv c = Some z \<Longrightarrow>
   three conv [k, a, b, c] = Inr [x, y, z]"
  by (simp add: three_def)

lemma parse_vline:
  assumes "token a" "token b" "token c"
    and "tf a = Some x" "tf b = Some y" "tf c = Some z"
  shows "parse_lines tf ti ((''v '' @ a @ '' '' @ b @ '' '' @ c @ [LF]) # rest) vs fs =
         parse_lines tf ti rest (vs @ [x, y, z]) fs"
proof -
  let ?l = "''v '' @ a @ '' '' @ b @ '' '' @ c"
  have c: "c \<noteq> []" using assms(3) by (simp add: token_def)
  have "py_strip (?l @ [LF]) = ?l"
  proof (rule strip_line)
    show "?l \<noteq> []" by simp
    show "\<not> py_isspace (hd ?l)" by (simp add: py_isspace_def)
    show "\<not> py_isspace (last ?l)" using token_last[OF assms(3)] c by simp
  qed
  then have s: "py_strip (''v '' @ a @ '' '' @ b @ '' '' @ c @ [LF]) = ?l" by simp
  have sw: "py_startswith ?l ''v ''" by (simp add: py_startswith_def)
  have "py_split (''v'' @ '' '' @ a @ '' '' @ b @ '' '' @ c) = [''v'', a, b, c]"
    by (rule split_four[OF token_v assms(1-3)])
  then have sp: "py_split ?l = [''v'', a, b, c]" by simp
  show ?thesis
    unfolding parse_lines.simps s Let_def
    by (simp only: sw sp if_True three_ok[where conv = tf, OF assms(4-6)] sum.case list.size) simp
qed

lemma parse_fline:
  assumes "token a" "token b" "token c"
    and "ti (before_slash a) = Some x" "ti (before_slash b) = Some y" "ti (before_slash c) = Some z"
  shows "parse_lines tf ti ((''f '' @ a @ '' '' @ b @ '' '' @ c @ [LF]) # rest) vs fs =
         parse_lines tf ti rest vs (fs @ [x - 1, y - 1, z - 1])"
proof -
  let ?l = "''f '' @ a @ '' '' @ b @ '' '' @ c"
  let ?conv = "\<lambda>p. map_option (\<lambda>n. n - 1) (ti (before_slash p))"
  have c: "c \<noteq> []" using assms(3) by (simp add: token_def)
  have "py_strip (?l @ [LF]) = ?l"
  proof (rule strip_line)
    show "?l \<noteq> []" by simp
    show "\<not> py_isspace (hd ?l)" by (simp add: py_isspace_def)
    show "\<not> py_isspace (last ?l)" using token_last[OF assms(3)] c by simp
  qed
  then have s: "py_strip (''f '' @ a @ '' '' @ b @ '' '' @ c @ [LF]) = ?l" by simp
  have nv: "\<not> py_startswith ?l ''v ''" by (simp add: py_startswith_def)
  have sw: "py_startswith ?l ''f ''" by (simp add: py_startswith_def)
  have "py_split (''f'' @ '' '' @ a @ '' '' @ b @ '' '' @ c) = [''f'', a, b, c]"
    by (rule split_four[OF token_f assms(1-3)])
  then have sp: "py_split ?l = [''f'', a, b, c]" by simp
  have t: "three ?conv [''f'', a, b, c] = Inr [x - 1, y - 1, z - 1]"
    by (rule three_ok) (simp_all add: assms(4-6))
  show ?thesis
    unfolding parse_lines.simps s Let_def
    by (simp only: nv sw sp if_True if_False t sum.case list.size) simp
qed

lemma parse_vlines:
  assumes "\<And>k. k \<in> set ks \<Longrightarrow>
     token (fmt (vx vs k)) \<and> token (fmt (vy vs k)) \<and> token (fmt (vz vs k)) \<and>
     tf (fmt (vx vs k)) = Some (px (vx vs k)) \<and> tf (fmt (vy vs k)) = Some (px (vy vs k)) \<and>
     tf (fmt (vz vs k)) = Some (px (vz vs k))"
  shows "parse_lines tf ti (map (\<lambda>l. l @ [LF]) (map (vline fmt vs) ks) @ rest) acc fs =
         parse_lines tf ti rest
           (acc @ concat (map (\<lambda>k. [px (vx vs k), px (vy vs k), px (vz vs k)]) ks)) fs"
  using assms
proof (induction ks arbitrary: acc)
  case Nil
  then show ?case by simp
next
  case (Cons k ks)
  have k: "token (fmt (vx vs k))" "token (fmt (vy vs k))" "token (fmt (vz vs k))"
    "tf (fmt (vx vs k)) = Some (px (vx vs k))" "tf (fmt (vy vs k)) = Some (px (vy vs k))"
    "tf (fmt (vz vs k)) = Some (px (vz vs k))"
    using Cons.prems[of k] by simp_all
  have ih: "parse_lines tf ti (map (\<lambda>l. l @ [LF]) (map (vline fmt vs) ks) @ rest) acc' fs =
         parse_lines tf ti rest
           (acc' @ concat (map (\<lambda>k. [px (vx vs k), px (vy vs k), px (vz vs k)]) ks)) fs" for acc'
    by (rule Cons.IH, rule Cons.prems, simp)
  have "parse_lines tf ti (map (\<lambda>l. l @ [LF]) (map (vline fmt vs) (k # ks)) @ rest) acc fs =
        parse_lines tf ti ((''v '' @ fmt (vx vs k) @ '' '' @ fmt (vy vs k) @ '' '' @ fmt (vz vs k) @ [LF])
           # (map (\<lambda>l. l @ [LF]) (map (vline fmt vs) ks) @ rest)) acc fs"
    by (simp add: vline_def)
  also have "\<dots> = parse_lines tf ti (map (\<lambda>l. l @ [LF]) (map (vline fmt vs) ks) @ rest)
                      (acc @ [px (vx vs k), px (vy vs k), px (vz vs k)]) fs"
    by (rule parse_vline[OF k])
  also note ih
  finally show ?case by simp
qed

lemma parse_flines:
  assumes "\<And>k. k \<in> set ks \<Longrightarrow>
     ti (py_str_int (fs0 ! (3 * k) + 1)) = Some (q (fs0 ! (3 * k))) \<and>
     ti (py_str_int (fs0 ! (3 * k + 1) + 1)) = Some (q (fs0 ! (3 * k + 1))) \<and>
     ti (py_str_int (fs0 ! (3 * k + 2) + 1)) = Some (q (fs0 ! (3 * k + 2)))"
  shows "parse_lines tf ti (map (\<lambda>l. l @ [LF]) (map (fline fs0) ks) @ rest) vs acc =
         parse_lines tf ti rest vs
           (acc @ concat (map (\<lambda>k. [q (fs0 ! (3 * k)) - 1, q (fs0 ! (3 * k + 1)) - 1,
                                      q (fs0 ! (3 * k + 2)) - 1]) ks))"
  using assms
proof (induction ks arbitrary: acc)
  case Nil
  then show ?case by simp
next
  case (Cons k ks)
  have k: "ti (before_slash (py_str_int (fs0 ! (3 * k) + 1))) = Some (q (fs0 ! (3 * k)))"
    "ti (before_slash (py_str_int (fs0 ! (3 * k + 1) + 1))) = Some (q (fs0 ! (3 * k + 1)))"
    "ti (before_slash (py_str_int (fs0 ! (3 * k + 2) + 1))) = Some (q (fs0 ! (3 * k + 2)))"
    using Cons.prems[of k] by (simp_all add: before_slash_str_int)
  have ih: "parse_lines tf ti (map (\<lambda>l. l @ [LF]) (map (fline fs0) ks) @ rest) vs acc' =
         parse_lines tf ti rest vs
           (acc' @ concat (map (\<lambda>k. [q (fs0 ! (3 * k)) - 1, q (fs0 ! (3 * k + 1)) - 1,
                                      q (fs0 ! (3 * k + 2)) - 1]) ks))" for acc'
    by (rule Cons.IH, rule Cons.prems, simp)
  have "parse_lines tf ti (map (\<lambda>l. l @ [LF]) (map (fline fs0) (k # ks)) @ rest) vs acc =
        parse_lines tf ti ((''f '' @ py_str_int (fs0 ! (3 * k) + 1) @ '' ''
           @ py_str_int (fs0 ! (3 * k + 1) + 1) @ '' '' @ py_str_int (fs0 ! (3 * k + 2) + 1) @ [LF])
           # (map (\<lambda>l. l @ [LF]) (map (fline fs0) ks) @ rest)) vs acc"
    by (simp add: fline_def)
  also have "\<dots> = parse_lines tf ti (map (\<lambda>l. l @ [LF]) (map (fline fs0) ks) @ rest) vs
                      (acc @ [q (fs0 ! (3 * k)) - 1, q (fs0 ! (3 * k + 1)) - 1, q (fs0 ! (3 * k + 2)) - 1])"
    by (rule parse_fline[OF token_str_int token_str_int token_str_int k])
  also note ih
  finally show ?case by simp
qed

lemma parse_header:
  "parse_lines tf ti (map (\<lambda>l. l @ [LF]) (header_lines name nv nf) @ rest) vs fs =
   parse_lines tf ti rest vs fs"
  by (simp add: header_lines_def parse_comment parse_blank del: parse_lines.simps)

lemma concat_triples_take:
  "3 * j \<le> length xs \<Longrightarrow>
   concat (map (\<lambda>k. [g (xs ! (3 * k)), g (xs ! (3 * k + 1)), g (xs ! (3 * k + 2))]) [0..<j]) =
     map g (take (3 * j) xs)"
proof (induction j)
  case 0
  then show ?case by simp
next
  case (Suc j)
  then have l: "3 * j + 2 < length xs" by simp
  then have l0: "3 * j < length xs" and l1: "3 * j + 1 < length xs" by simp_all
  have e: "3 * Suc j = Suc (Suc (Suc (3 * j)))" by simp
  have t: "take (3 * Suc j) xs = take (3 * j) xs @ [xs ! (3 * j), xs ! (3 * j + 1), xs ! (3 * j + 2)]"
    unfolding e using l l0 l1 by (simp add: take_Suc_conv_app_nth)
  let ?f = "\<lambda>k. [g (xs ! (3 * k)), g (xs ! (3 * k + 1)), g (xs ! (3 * k + 2))]"
  from Suc have ih: "concat (map ?f [0..<j]) = map g (take (3 * j) xs)" by simp
  have "concat (map ?f [0..<Suc j]) = concat (map ?f [0..<j]) @ ?f j" by simp
  then show ?case by (simp only: ih t map_append list.map)
qed

lemma no_break_header:
  "no_break name \<Longrightarrow> l \<in> set (header_lines name nv nf) \<Longrightarrow> no_break l"
  using token_no_break[OF token_str_int]
  by (auto simp: header_lines_def CR_def LF_def)

lemma no_break_vline:
  "token (fmt (vx vs k)) \<Longrightarrow> token (fmt (vy vs k)) \<Longrightarrow> token (fmt (vz vs k)) \<Longrightarrow>
   no_break (vline fmt vs k)"
  by (auto simp: vline_def CR_def LF_def dest: token_no_break)

lemma no_break_fline: "no_break (fline fs k)"
  using token_no_break[OF token_str_int]
  by (auto simp: fline_def CR_def LF_def)

lemma parse_exported:
  assumes n: "length vs = 3 * n" and f: "length fs = 3 * f"
    and name: "no_break name"
    and num: "\<And>x. x \<in> set vs \<Longrightarrow> token (fmt x) \<and> tf (fmt x) = Some (px x)"
    and idx: "\<And>x. x \<in> set fs \<Longrightarrow> ti (py_str_int (x + 1)) = Some (q x)"
  shows "parse_obj tf ti
           (unlines (header_lines name n f @ map (vline fmt vs) [0..<n] @ [[]]
              @ map (fline fs) [0..<f])) =
         Inr (map px vs, map (\<lambda>x. q x - 1) fs)"
proof -
  let ?L = "\<lambda>l. l @ [LF]"
  let ?ls = "header_lines name n f @ map (vline fmt vs) [0..<n] @ [[]] @ map (fline fs) [0..<f]"
  have vk: "vx vs k \<in> set vs \<and> vy vs k \<in> set vs \<and> vz vs k \<in> set vs" if "k < n" for k
  proof -
    from that n have "3 * k + 2 < length vs" by linarith
    then show ?thesis by (simp add: vx_def vy_def vz_def)
  qed
  have fk: "fs ! (3 * k) \<in> set fs \<and> fs ! (3 * k + 1) \<in> set fs \<and> fs ! (3 * k + 2) \<in> set fs"
    if "k < f" for k
  proof -
    from that f have "3 * k + 2 < length fs" by linarith
    then show ?thesis by simp
  qed
  have nb: "\<forall>l \<in> set ?ls. no_break l"
  proof
    fix l assume "l \<in> set ?ls"
    then consider "l \<in> set (header_lines name n f)" | k where "k < n" "l = vline fmt vs k"
      | "l = []" | k where "l = fline fs k"
      by auto
    then show "no_break l"
    proof cases
      case 1
      then show ?thesis by (rule no_break_header[OF name])
    next
      case 2
      with vk[OF 2(1)] num show ?thesis by (simp add: no_break_vline)
    next
      case 3
      then show ?thesis by simp
    next
      case 4
      then show ?thesis by (simp add: no_break_fline)
    qed
  qed
  have vpre: "token (fmt (vx vs k)) \<and> token (fmt (vy vs k)) \<and> token (fmt (vz vs k)) \<and>
     tf (fmt (vx vs k)) = Some (px (vx vs k)) \<and> tf (fmt (vy vs k)) = Some (px (vy vs k)) \<and>
     tf (fmt (vz vs k)) = Some (px (vz vs k))" if "k \<in> set [0..<n]" for k
  proof -
    from that have "k < n" by simp
    from vk[OF this] num show ?thesis by blast
  qed
  have fpre: "ti (py_str_int (fs ! (3 * k) + 1)) = Some (q (fs ! (3 * k))) \<and>
     ti (py_str_int (fs ! (3 * k + 1) + 1)) = Some (q (fs ! (3 * k + 1))) \<and>
     ti (py_str_int (fs ! (3 * k + 2) + 1)) = Some (q (fs ! (3 * k + 2)))" if "k \<in> set [0..<f]" for k
  proof -
    from that have "k < f" by simp
    from fk[OF this] idx show ?thesis by blast
  qed
  let ?vs' = "concat (map (\<lambda>k. [px (vx vs k), px (vy vs k), px (vz vs k)]) [0..<n])"
  let ?fs' = "concat (map (\<lambda>k. [q (fs ! (3 * k)) - 1, q (fs ! (3 * k + 1)) - 1,
                                      q (fs ! (3 * k + 2)) - 1]) [0..<f])"
  have "parse_obj tf ti (unlines ?ls) = parse_lines tf ti (map ?L ?ls) [] []"
    by (simp only: parse_obj_def file_lines_unlines[OF nb])
  also have "\<dots> = parse_lines tf ti
       (map ?L (header_lines name n f) @
         (map ?L (map (vline fmt vs) [0..<n]) @ ([LF] # (map ?L (map (fline fs) [0..<f]) @ []))))
       [] []"
    by simp
  also have "\<dots> = parse_lines tf ti
         (map ?L (map (vline fmt vs) [0..<n]) @ ([LF] # (map ?L (map (fline fs) [0..<f]) @ [])))
       [] []"
    by (rule parse_header)
  also have "\<dots> = parse_lines tf ti ([LF] # (map ?L (map (fline fs) [0..<f]) @ [])) ([] @ ?vs') []"
    by (rule parse_vlines[OF vpre])
  also have "\<dots> = parse_lines tf ti (map ?L (map (fline fs) [0..<f]) @ []) ([] @ ?vs') []"
    by (rule parse_blank)
  also have "\<dots> = parse_lines tf ti [] ([] @ ?vs') ([] @ ?fs')"
    by (rule parse_flines[OF fpre])
  also have "\<dots> = Inr (?vs', ?fs')" by simp
  finally have r: "parse_obj tf ti (unlines ?ls) = Inr (?vs', ?fs')" .
  have v: "?vs' = map px vs"
    using concat_triples_take[of n vs px] n by (simp add: vx_def vy_def vz_def)
  have fq: "?fs' = map (\<lambda>x. q x - 1) fs"
    using concat_triples_take[of f fs "\<lambda>x. q x - 1"] f by simp
  show ?thesis unfolding r v fq by (rule refl)
qed

section \<open>The position check on a faithful copy\<close>

lemma fabs_fsub_Finite: "fabs (fsub (Finite u) (Finite v)) = Finite \<bar>u - v\<bar>"
  by (simp add: fsub_def)

lemma py_max2_Finite: "py_max2 (Finite a) (Finite b) = Finite (max a b)"
  by (simp add: py_max2_def max_def)

lemma drift_loop_step:
  "i + 2 < length vs \<Longrightarrow> i + 2 < length ovs \<Longrightarrow>
   drift_loop vs ovs i a c =
     drift_loop vs ovs (i + 3)
       (py_max2 (py_max2 a (fabs (fsub (vs ! i) (ovs ! i))))
          (fabs (fsub (vs ! (i + 1)) (ovs ! (i + 1)))))
       (py_max2 c (fabs (fsub (vs ! (i + 2)) (ovs ! (i + 2)))))"
  by (subst drift_loop.simps) (simp add: Let_def)

lemma drift_loop_stop:
  "\<not> i < min (length vs) (length ovs) \<Longrightarrow> drift_loop vs ovs i a c = Inr (a, c)"
  by (subst drift_loop.simps) (simp only: if_False)

lemma drift_loop_small:
  assumes "length rs = 3 * n" and "length rs' = 3 * n"
    and "\<forall>i < 3 * n. \<bar>rs' ! i - rs ! i\<bar> \<le> e"
  shows "j \<le> n \<Longrightarrow> a \<le> e \<Longrightarrow>
         \<exists>a' c'. drift_loop (map Finite rs') (map Finite rs) (3 * j) (Finite a) (Finite c)
                    = Inr (Finite a', Finite c') \<and> a' \<le> e"
proof (induction "n - j" arbitrary: j a c)
  case 0
  then have "j = n" by simp
  with assms(1,2) 0 show ?case by (simp add: drift_loop_stop)
next
  case (Suc d)
  let ?vs = "map Finite rs'" and ?ovs = "map Finite rs"
  from Suc have lt: "j < n" by simp
  then have i2: "3 * j + 2 < 3 * n" and i1: "3 * j + 1 < 3 * n" and i0: "3 * j < 3 * n" by simp_all
  have l: "3 * j + 2 < length ?vs" "3 * j + 2 < length ?ovs" using i2 assms(1,2) by simp_all
  have d: "d = n - Suc j" using Suc.hyps(2) by simp
  have s: "3 * j + 3 = 3 * Suc j" by simp
  have le: "Suc j \<le> n" using lt by simp
  have n0: "?vs ! (3 * j) = Finite (rs' ! (3 * j))" "?ovs ! (3 * j) = Finite (rs ! (3 * j))"
    and n1: "?vs ! (3 * j + 1) = Finite (rs' ! (3 * j + 1))" "?ovs ! (3 * j + 1) = Finite (rs ! (3 * j + 1))"
    and n2: "?vs ! (3 * j + 2) = Finite (rs' ! (3 * j + 2))" "?ovs ! (3 * j + 2) = Finite (rs ! (3 * j + 2))"
    using i0 i1 i2 assms(1,2) by simp_all
  let ?a = "max (max a \<bar>rs' ! (3 * j) - rs ! (3 * j)\<bar>) \<bar>rs' ! (3 * j + 1) - rs ! (3 * j + 1)\<bar>"
  have a: "?a \<le> e" using Suc.prems(2) assms(3) i0 i1 by simp
  show ?case
    unfolding drift_loop_step[OF l] n0 n1 n2 fabs_fsub_Finite py_max2_Finite s
    by (rule Suc.hyps(1)[OF d le a])
qed

lemma validate_positions_small:
  assumes "length rs = 3 * n" and "length rs' = 3 * n"
    and "\<forall>i < 3 * n. \<bar>rs' ! i - rs ! i\<bar> \<le> 1 / 10 ^ 6"
  shows "validate_positions (map Finite rs') (map Finite rs) stdin = Inr stdin"
proof -
  have p: "(0::real) \<le> 1 / 10 ^ 6" by simp
  have z: "(0::nat) \<le> n" by simp
  from drift_loop_small[OF assms z p, of 0]
  obtain a' c' where r: "drift_loop (map Finite rs') (map Finite rs) 0 (Finite 0) (Finite 0)
                    = Inr (Finite a', Finite c')" and a: "a' \<le> 1 / 10 ^ 6"
    by auto
  from a have "\<not> 1 / 1000 < a'" by simp
  then show ?thesis by (simp add: validate_positions_def r)
qed

section \<open>Export and import\<close>

text \<open>
  C5. Take a valid mesh with at least one vertex and finite coordinates, exported under a
  file name without a line terminator. Of Python's number formatting and parsing, which
  are parameters here, suppose what holds of them on floats: each coordinate is written as
  one part without white space and read back within 1e-6 of its value, and each face index
  plus one, written in decimal, is read back as an int. Then \<^verbatim>\<open>json_to_obj\<close> writes
  a text, and \<^verbatim>\<open>obj_to_json\<close> on that text with the same mesh as reference asks
  nothing and writes a mesh with the same number of coordinates, the identical face list
  and every coordinate within 1e-6 of the original.
\<close>

theorem export_import_round_trip:
  assumes valid: "valid_mesh m" and fin: "vertices m = map Finite rs" and ne: "rs \<noteq> []"
    and name: "no_break name"
    and num: "\<forall>a \<in> set rs. token (fmt (Finite a)) \<and>
               (\<exists>r. to_float (fmt (Finite a)) = Some (Finite r) \<and> \<bar>r - a\<bar> \<le> 1 / 10 ^ 6)"
    and idx: "\<forall>f \<in> set (faces m). to_int (py_str_int (f + 1)) \<noteq> None"
  shows "\<exists>text out. json_to_obj fmt name m = Inr text \<and>
           obj_to_json to_float to_int text m stdin = Inr out \<and>
           length (vertices out) = length (vertices m) \<and> faces out = faces m \<and>
           (\<forall>i < length rs. \<exists>r. vertices out ! i = Finite r \<and> \<bar>r - rs ! i\<bar> \<le> 1 / 10 ^ 6)"
proof -
  from valid have "length rs mod 3 = 0" by (simp add: valid_mesh_def fin)
  then obtain n where n: "length rs = 3 * n" by (blast dest: mod3_ex)
  from valid have "length (faces m) mod 3 = 0" by (simp add: valid_mesh_def)
  then obtain f where f: "length (faces m) = 3 * f" by (blast dest: mod3_ex)
  have vn: "length (vertices m) = 3 * n" by (simp add: fin n)
  have vne: "vertices m \<noteq> []" using ne by (simp add: fin)
  define rd where "rd a = (case the (to_float (fmt (Finite a))) of Finite r \<Rightarrow> r | _ \<Rightarrow> 0)" for a
  define px where "px x = (case x of Finite a \<Rightarrow> Finite (rd a) | _ \<Rightarrow> x)" for x
  define q where "q x = the (to_int (py_str_int (x + 1)))" for x
  have rd: "token (fmt (Finite a)) \<and> to_float (fmt (Finite a)) = Some (Finite (rd a)) \<and>
            \<bar>rd a - a\<bar> \<le> 1 / 10 ^ 6" if "a \<in> set rs" for a
    using num that by (auto simp: rd_def)
  have pnum: "token (fmt x) \<and> to_float (fmt x) = Some (px x)" if "x \<in> set (vertices m)" for x
    using that rd by (auto simp: fin px_def)
  have pidx: "to_int (py_str_int (x + 1)) = Some (q x)" if "x \<in> set (faces m)" for x
    using idx that by (auto simp: q_def)
  let ?text = "unlines (header_lines name n f @ map (vline fmt (vertices m)) [0..<n] @ [[]]
                 @ map (fline (faces m)) [0..<f])"
  let ?vs' = "map Finite (map rd rs)"
  let ?fs' = "map (\<lambda>x. q x - 1) (faces m)"
  have ex: "json_to_obj fmt name m = Inr ?text"
    by (rule json_to_obj_text[OF vn f vne])
  have "parse_obj to_float to_int ?text = Inr (map px (vertices m), ?fs')"
    by (rule parse_exported[where fmt = fmt and tf = to_float and px = px and ti = to_int
          and q = q, OF vn f name pnum pidx])
  moreover have "map px (vertices m) = ?vs'" by (simp add: fin px_def)
  ultimately have p: "parse_obj to_float to_int ?text = Inr (?vs', ?fs')" by simp
  have rf: "resolve_faces ?vs' ?fs' m stdin = Inr (faces m, stdin)"
    by (simp add: resolve_faces_def fin)
  have small: "\<forall>i < 3 * n. \<bar>map rd rs ! i - rs ! i\<bar> \<le> 1 / 10 ^ 6"
    using rd n by simp
  have ln: "length (map rd rs) = 3 * n" using n by simp
  have vp: "validate_positions ?vs' (vertices m) stdin = Inr stdin"
    unfolding fin by (rule validate_positions_small[OF n ln small])
  have im: "obj_to_json to_float to_int ?text m stdin = Inr \<lparr>vertices = ?vs', faces = faces m\<rparr>"
    by (simp only: obj_to_json_def p rf vp sum.case prod.case)
  have close: "\<forall>i < length rs. \<exists>r. ?vs' ! i = Finite r \<and> \<bar>r - rs ! i\<bar> \<le> 1 / 10 ^ 6"
    using rd by simp
  let ?out = "\<lparr>vertices = ?vs', faces = faces m\<rparr>"
  have len: "length (vertices ?out) = length (vertices m)" by (simp add: fin)
  have fc: "faces ?out = faces m" by simp
  have cl: "\<forall>i < length rs. \<exists>r. vertices ?out ! i = Finite r \<and> \<bar>r - rs ! i\<bar> \<le> 1 / 10 ^ 6"
    using close by simp
  from ex im len fc cl show ?thesis by blast
qed

theorem export_import_round_trip_witness:
  "valid_mesh unit_square \<and>
   vertices unit_square = map Finite [0, 0, 1,  1, 0, 1,  0, 1, 1,  1, 1, 1] \<and>
   [0, 0, 1,  1, 0, 1,  0, 1, 1,  1, 1, 1] \<noteq> ([] :: real list) \<and>
   no_break ''a0.json'' \<and>
   list_all (\<lambda>a. token (fmt_whole (Finite a)) \<and>
      (\<exists>r. dec_float (fmt_whole (Finite a)) = Some (Finite r) \<and> \<bar>r - a\<bar> \<le> 1 / 10 ^ 6))
     [0, 0, 1,  1, 0, 1,  0, 1, 1,  1, 1, 1] \<and>
   list_all (\<lambda>f. dec_int (py_str_int (f + 1)) \<noteq> None) (faces unit_square) \<and>
   (\<exists>text out. json_to_obj fmt_whole ''a0.json'' unit_square = Inr text \<and>
      obj_to_json dec_float dec_int text unit_square [] = Inr out \<and>
      length (vertices out) = length (vertices unit_square) \<and>
      faces out = faces unit_square \<and>
      (\<forall>i < length [0, 0, 1,  1, 0, 1,  0, 1, 1,  1, 1, 1 :: real].
         \<exists>r. vertices out ! i = Finite r \<and>
             \<bar>r - [0, 0, 1,  1, 0, 1,  0, 1, 1,  1, 1, 1] ! i\<bar> \<le> 1 / 10 ^ 6))"
proof -
  have v: "valid_mesh unit_square"
    by (simp add: valid_mesh_def unit_square_def)
  have r: "vertices unit_square = map Finite [0, 0, 1,  1, 0, 1,  0, 1, 1,  1, 1, 1]"
    by (simp add: unit_square_def)
  have n: "[0, 0, 1,  1, 0, 1,  0, 1, 1,  1, 1, 1] \<noteq> ([] :: real list)"
    by simp
  have b: "no_break ''a0.json''"
    by (simp add: CR_def LF_def)
  have w0: "fmt_whole (Finite 0) = ''0''" and w1: "fmt_whole (Finite 1) = ''1''"
    by code_simp+
  have t: "token ''0''" "token ''1''"
    by (simp_all add: token_def py_isspace_def)
  have d: "dec_float ''0'' = Some (Finite 0)" "dec_float ''1'' = Some (Finite 1)"
    by (simp_all add: dec_float_def dec_int_def digit_val_def)
  have c: "\<forall>a \<in> set [0, 0, 1,  1, 0, 1,  0, 1, 1,  1, 1, 1].
      token (fmt_whole (Finite a)) \<and>
      (\<exists>r. dec_float (fmt_whole (Finite a)) = Some (Finite r) \<and> \<bar>r - a\<bar> \<le> 1 / 10 ^ 6)"
    by (simp add: w0 w1 t d)
  have g: "dec_int (py_str_int 1) = Some 1" "dec_int (py_str_int 2) = Some 2"
    "dec_int (py_str_int 3) = Some 3" "dec_int (py_str_int 4) = Some 4"
    by code_simp+
  have f: "\<forall>f \<in> set (faces unit_square). dec_int (py_str_int (f + 1)) \<noteq> None"
    by (simp add: unit_square_def g)
  from export_import_round_trip[OF v r n b c f, of "[]"] v r n b c f show ?thesis
    unfolding list_all_iff by blast
qed

text \<open>The text and the mesh of that round trip.\<close>

lemma unit_square_round_trip:
  "json_to_obj fmt_whole ''a0.json'' unit_square = Inr unit_square_obj \<and>
   obj_to_json dec_float dec_int unit_square_obj unit_square [] = Inr unit_square"
  by code_simp


end
